theory Spec2Isabelle
  imports Complex_Main "HOL-Library.Word" "HOL-Library.AList" "HOL-Library.Log_Nat"
begin

unbundle bit_operations_syntax

section \<open>Data model of \<open>server.js\<close>\<close>

text \<open>
  Connection handles (\<open>socket.id\<close>) and join codes are JavaScript strings. Timestamps are
  the values of \<open>Date.now()\<close>: milliseconds since the epoch, a natural number. The field
  \<open>id\<close> of a user is \<open>uid\<close> here.

  A display name comes from the client and may hold any character, so it is a JavaScript
  string as the language has it: a list of 16-bit code units. \<open>js\<close> turns a literal of
  ASCII characters into such a string.
\<close>

type_synonym handle = string
type_synonym roomId = string
type_synonym jstring = "16 word list"

definition js :: "string \<Rightarrow> jstring" where
  "js s = map of_char s"

record user =
  uid :: handle
  name :: jstring
  joinedAt :: nat

text \<open>
  A JavaScript \<open>Map\<close> keeps its entries in insertion order, and the handlers depend on that
  order (\<open>[...room.users.keys()][0]\<close>), so a \<open>Map\<close> is an association list: \<open>get\<close> is
  \<^const>\<open>map_of\<close>, \<open>set\<close> is \<^const>\<open>AList.update\<close> (an existing key keeps its position, a new
  one goes to the end), \<open>delete\<close> is \<^const>\<open>AList.delete\<close>.
\<close>

record room =
  users :: "(handle \<times> user) list"
  hostId :: handle
  spins :: nat
  lockUntil :: "nat option"
  pendingHostId :: "handle option"

type_synonym rooms = "(roomId \<times> room) list"

definition has :: "'k \<Rightarrow> ('k \<times> 'v) list \<Rightarrow> bool" where
  "has k m = (map_of m k \<noteq> None)"

text \<open>
  \<^verbatim>\<open>const next = [...room.users.keys()][0]; if (next) ...\<close>: the first key in insertion
  order, tested for truthiness. It is \<open>undefined\<close> for an empty map, and the empty string is
  falsy as well.
\<close>

definition first_key :: "(handle \<times> 'v) list \<Rightarrow> handle option" where
  "first_key m = (case m of [] \<Rightarrow> None | (k, _) # _ \<Rightarrow> if k = [] then None else Some k)"

section \<open>What a handler sends\<close>

record spin_start =
  orderIds :: "handle list"
  targetIndex :: nat
  durationMs :: nat
  turns :: nat
  startAt :: nat
  nextHostId :: handle
  hostSwitchAt :: nat
  spinsSent :: nat

datatype payload =
    RoomState roomId "user list" handle nat "nat option"
      \<comment> \<open>\<open>room_state {roomId, users, hostId, spins, lockUntil}\<close>\<close>
  | SpinStart spin_start
  | SpinDenied string
  | JoinError string

datatype ack =
    AckRoom roomId     \<comment> \<open>\<open>{ok: true, roomId}\<close>\<close>
  | AckError string    \<comment> \<open>\<open>{ok: false, error}\<close>\<close>
  | AckOk              \<comment> \<open>\<open>{ok: true}\<close>\<close>
  | AckFail            \<comment> \<open>\<open>{ok: false}\<close>\<close>
  | AckName jstring    \<comment> \<open>\<open>{ok: true, name}\<close>\<close>

datatype out =
    Callback handle ack        \<comment> \<open>\<open>cb?.(...)\<close> of the calling socket\<close>
  | ToSocket handle payload    \<comment> \<open>\<open>socket.emit\<close>, \<open>io.to(socket.id).emit\<close>\<close>
  | ToRoom roomId payload      \<comment> \<open>\<open>io.to(roomId).emit\<close>\<close>
  | SocketJoin handle roomId   \<comment> \<open>\<open>socket.join(roomId)\<close>\<close>
  | SocketLeave handle roomId  \<comment> \<open>\<open>socket.leave(roomId)\<close>\<close>

text \<open>
  \<open>emitState\<close>: the users sorted by join time (the sort of JavaScript is stable, as
  \<^const>\<open>sort_key\<close> is), and \<open>room.lockUntil || null\<close>, which turns a 0 into \<open>null\<close>.
\<close>

definition truthy :: "nat option \<Rightarrow> nat option" where
  "truthy t = (case t of None \<Rightarrow> None | Some v \<Rightarrow> if v = 0 then None else Some v)"

definition room_state :: "roomId \<Rightarrow> room \<Rightarrow> payload" where
  "room_state rid r =
     RoomState rid (sort_key joinedAt (map snd (users r))) (hostId r) (spins r)
       (truthy (lockUntil r))"

definition emitState :: "rooms \<Rightarrow> roomId \<Rightarrow> out list" where
  "emitState rs rid =
     (case map_of rs rid of None \<Rightarrow> [] | Some r \<Rightarrow> [ToRoom rid (room_state rid r)])"

section \<open>The pick: \<open>seededPick\<close>\<close>

text \<open>
  \<^verbatim>\<open>let x = seed ^ 0x9e3779b9; x ^= x << 13; x ^= x >> 17; x ^= x << 5;
  return Math.abs(x) % n;\<close>
  The bitwise operators of JavaScript work on 32-bit two's complement integers: the seed is
  reduced modulo \<open>2 ^ 32\<close>, \<open><<\<close> drops the bits shifted out, \<open>>>\<close> is the arithmetic
  shift. \<open>Math.abs\<close> and \<open>%\<close> work on numbers again, so the absolute value of
  \<open>- 2 ^ 31\<close> is \<open>2 ^ 31\<close>. For \<open>n = 0\<close> JavaScript yields NaN; the one caller passes the
  length of a turn order of at least two users.
\<close>

definition mix :: "32 word \<Rightarrow> 32 word" where
  "mix x0 =
     (let x1 = x0 XOR push_bit 13 x0;
          x2 = x1 XOR signed_drop_bit 17 x1;
          x3 = x2 XOR push_bit 5 x2
      in x3)"

definition seededPick :: "int \<Rightarrow> nat \<Rightarrow> nat" where
  "seededPick seed n = nat (\<bar>sint (mix (word_of_int seed XOR 0x9e3779b9))\<bar> mod int n)"

section \<open>Numbers: the values of \<open>Math.random()\<close>\<close>

text \<open>
  A JavaScript number is an IEEE double. The numbers that the handlers compute with
  \<open>Math.random()\<close> are not negative, so a double is a mantissa and an exponent here, with the
  value \<open>mantissa * 2 ^ exponent\<close>. An operation computes the exact result and rounds it to
  53 significant bits, to the nearest such number and to the even mantissa on a tie
  (\<open>round53\<close>). The exponents of the numbers below stay far inside the range of a double.
\<close>

datatype double = Double (mantissa: int) (exponent: int)

definition val :: "double \<Rightarrow> real" where
  "val d = of_int (mantissa d) * 2 powi exponent d"

text \<open>
  \<open>round_bits p m e\<close> rounds \<open>m * 2 ^ e\<close> to \<open>p\<close> significant bits: \<open>s\<close> bits are cut off,
  \<open>r\<close> is their value and \<open>h\<close> is half of the unit in the last place that stays.
\<close>

definition round_bits :: "nat \<Rightarrow> int \<Rightarrow> int \<Rightarrow> double" where
  "round_bits p m e =
     (let bl = bitlen m
      in if bl \<le> int p then Double m e
         else (let s = nat (bl - int p);
                   q = m div 2 ^ s;
                   r = m mod 2 ^ s;
                   h = 2 ^ (s - 1)
               in Double (if h < r \<or> (r = h \<and> odd q) then q + 1 else q) (e + int s)))"

definition round53 :: "int \<Rightarrow> int \<Rightarrow> double" where
  "round53 m e = round_bits 53 m e"

text \<open>
  \<open>Math.random() * k\<close>, \<open>k + x\<close> and \<open>Math.floor(x)\<close> for a whole number \<open>k\<close> below
  \<open>2 ^ 53\<close>, which is a double itself.
\<close>

definition dmul_nat :: "double \<Rightarrow> nat \<Rightarrow> double" where
  "dmul_nat d k = round53 (mantissa d * int k) (exponent d)"

definition dadd_nat :: "nat \<Rightarrow> double \<Rightarrow> double" where
  "dadd_nat k d =
     (if 0 \<le> exponent d then round53 (int k + mantissa d * 2 ^ nat (exponent d)) 0
      else round53 (int k * 2 ^ nat (- exponent d) + mantissa d) (exponent d))"

definition dfloor :: "double \<Rightarrow> nat" where
  "dfloor d =
     (if 0 \<le> exponent d then nat (mantissa d * 2 ^ nat (exponent d))
      else nat (mantissa d div 2 ^ nat (- exponent d)))"

text \<open>
  A draw of \<open>Math.random()\<close>: a double that is at least 0 and less than 1.
\<close>

definition is_random :: "double \<Rightarrow> bool" where
  "is_random d =
     (0 \<le> mantissa d \<and> mantissa d < 2 ^ 53 \<and>
      (mantissa d = 0 \<or> (exponent d < 0 \<and> mantissa d < 2 ^ nat (- exponent d))))"

section \<open>Names: \<open>sanitizeName\<close> and \<open>uniqueName\<close>\<close>

text \<open>
  The white space of JavaScript (\<open>\s\<close> in a regular expression and \<open>trim\<close> use the same
  set): tab, line feed, vertical tab, form feed, carriage return, space, no-break space, the
  space separators of Unicode, the line and paragraph separators, and the byte order mark.
  Each is one code unit.
\<close>

definition is_space :: "16 word \<Rightarrow> bool" where
  "is_space c =
     (c \<in> {0x09, 0x0A, 0x0B, 0x0C, 0x0D, 0x20, 0xA0, 0x1680, 0x2028, 0x2029, 0x202F, 0x205F,
           0x3000, 0xFEFF}
      \<or> (0x2000 \<le> c \<and> c \<le> 0x200A))"

definition trim :: "jstring \<Rightarrow> jstring" where
  "trim s = rev (dropWhile is_space (rev (dropWhile is_space s)))"

text \<open>\<^verbatim>\<open>.replace(/\s+/g, ' ')\<close>: every maximal run of white space becomes one space.\<close>

function collapse_ws :: "jstring \<Rightarrow> jstring" where
  "collapse_ws [] = []"
| "collapse_ws (c # cs) =
     (if is_space c then 0x20 # collapse_ws (dropWhile is_space cs)
      else c # collapse_ws cs)"
  by pat_completeness auto
termination
  by (relation "measure length") (auto simp: length_dropWhile_le less_Suc_eq_le)

text \<open>The decimal numeral of a number, as a template literal prints it.\<close>

definition digit_char :: "nat \<Rightarrow> char" where
  "digit_char d = char_of (48 + d)"

function show_nat :: "nat \<Rightarrow> string" where
  "show_nat n = (if n < 10 then [digit_char n] else show_nat (n div 10) @ [digit_char (n mod 10)])"
  by pat_completeness auto
termination
  by (relation "measure id") auto

declare show_nat.simps [simp del]

text \<open>
  The raw name is whatever the client put into the payload. \<open>raw || ''\<close> replaces a falsy
  value (\<open>undefined\<close>, \<open>null\<close>, \<open>false\<close>, \<open>0\<close>, \<open>NaN\<close>, the empty string) by the empty
  string, and \<open>String\<close> leaves a string as it is and converts any other value; \<open>JOther s\<close> is
  such a value, \<open>s\<close> being the string that \<open>String\<close> makes of it. A value whose conversion
  throws ends the process and is not among these.
\<close>

datatype js_value = JFalsy | JString jstring | JOther jstring

definition to_string :: "js_value \<Rightarrow> jstring" where
  "to_string raw = (case raw of JFalsy \<Rightarrow> [] | JString s \<Rightarrow> s | JOther s \<Rightarrow> s)"

text \<open>
  \<^verbatim>\<open>const s = String(raw || '').trim().replace(/\s+/g, ' ');
  const capped = s.slice(0, 20);
  return capped || `Player ${Math.floor(100 + Math.random() * 900)}`;\<close>
  \<open>rnd\<close> is the value of \<open>Math.random()\<close>.
\<close>

definition sanitizeName :: "js_value \<Rightarrow> double \<Rightarrow> jstring" where
  "sanitizeName raw rnd =
     (let s = collapse_ws (trim (to_string raw));
          capped = take 20 s
      in if capped \<noteq> [] then capped
         else js ''Player '' @ js (show_nat (dfloor (dadd_nat 100 (dmul_nat rnd 900)))))"

text \<open>
  What the description says of the sanitizer, written down on its own: the words of the raw
  name, that is its maximal runs of characters that are not white space, joined by single
  spaces.
\<close>

function spec_words :: "jstring \<Rightarrow> jstring list" where
  "spec_words s =
     (case dropWhile is_space s of
        [] \<Rightarrow> []
      | c # cs \<Rightarrow> (c # takeWhile (\<lambda>x. \<not> is_space x) cs)
                  # spec_words (dropWhile (\<lambda>x. \<not> is_space x) cs))"
  by pat_completeness auto
termination
proof (relation "measure length")
  show "wf (measure length)" by simp
next
  fix s :: jstring and c cs
  assume a: "dropWhile is_space s = c # cs"
  have "length (dropWhile (\<lambda>x. \<not> is_space x) cs) \<le> length cs" by (rule length_dropWhile_le)
  also have "length cs < length (c # cs)" by simp
  also have "\<dots> \<le> length s" unfolding a [symmetric] by (rule length_dropWhile_le)
  finally show "(dropWhile (\<lambda>x. \<not> is_space x) cs, s) \<in> measure length" by simp
qed

declare spec_words.simps [simp del]

fun spec_join :: "jstring list \<Rightarrow> jstring" where
  "spec_join [] = []"
| "spec_join [w] = w"
| "spec_join (w # v # ws) = w @ 0x20 # spec_join (v # ws)"

definition rtrim :: "jstring \<Rightarrow> jstring" where
  "rtrim s = rev (dropWhile is_space (rev s))"

text \<open>
  \<open>toLowerCase\<close>, on the code units below 256: the letters A to Z and the capital letters
  from code 192 to 222 (without the multiplication sign, 215) move up by 32. The case
  mapping of the rest of Unicode is not part of this model; those code units stay.
\<close>

definition lower_char :: "16 word \<Rightarrow> 16 word" where
  "lower_char c =
     (if (0x41 \<le> c \<and> c \<le> 0x5A) \<or> (0xC0 \<le> c \<and> c \<le> 0xDE \<and> c \<noteq> 0xD7) then c + 32 else c)"

definition toLowerCase :: "jstring \<Rightarrow> jstring" where
  "toLowerCase s = map lower_char s"

text \<open>
  \<^verbatim>\<open>const taken = new Set([...room.users.values()].map(u => u.name.toLowerCase()));
  if (!taken.has(baseName.toLowerCase())) return baseName;
  for (let i = 2; i < 99; i++) {
    const cand = `${baseName} ${i}`;
    if (!taken.has(cand.toLowerCase())) return cand;
  }
  return `${baseName} *`;\<close>
\<close>

function uniqueName_loop :: "jstring set \<Rightarrow> jstring \<Rightarrow> nat \<Rightarrow> jstring" where
  "uniqueName_loop taken baseName i =
     (if i < 99 then
        (let cand = baseName @ js '' '' @ js (show_nat i)
         in if toLowerCase cand \<notin> taken then cand else uniqueName_loop taken baseName (i + 1))
      else baseName @ js '' *'')"
  by pat_completeness auto
termination
  by (relation "measure (\<lambda>(taken, baseName, i). 99 - i)") auto

declare uniqueName_loop.simps [simp del]

definition taken_names :: "room \<Rightarrow> jstring set" where
  "taken_names r = set (map (\<lambda>u. toLowerCase (name u)) (map snd (users r)))"

definition uniqueName :: "room \<Rightarrow> jstring \<Rightarrow> jstring" where
  "uniqueName r baseName =
     (let taken = taken_names r
      in if toLowerCase baseName \<notin> taken then baseName else uniqueName_loop taken baseName 2)"

section \<open>Join codes: \<open>genCode\<close>\<close>

definition alphabet :: string where
  "alphabet = ''ABCDEFGHJKMNPQRSTUVWXYZ23456789''"

text \<open>
  \<^verbatim>\<open>code += alphabet[(Math.random() * alphabet.length) | 0]\<close>: the product is rounded to a
  double, and for a number that is not negative \<open>| 0\<close> is the floor. An index outside the
  string reads \<open>undefined\<close>, which \<open>+=\<close> appends as the word.
\<close>

definition pick_char :: "double \<Rightarrow> string" where
  "pick_char r =
     (let i = dfloor (dmul_nat r (length alphabet))
      in if i < length alphabet then [alphabet ! i] else ''undefined'')"

text \<open>
  \<open>genCode\<close> draws six characters and calls itself again while the code is the key of a
  room. The draws of \<open>Math.random()\<close> are a list, six of them used in each round; when the
  list runs out the function has not returned, which is \<open>None\<close>.
\<close>

function genCode :: "rooms \<Rightarrow> double list \<Rightarrow> roomId option" where
  "genCode rs draws =
     (if length draws < 6 then None
      else (let code = concat (map pick_char (take 6 draws))
            in if has code rs then genCode rs (drop 6 draws) else Some code))"
  by pat_completeness auto
termination
  by (relation "measure (\<lambda>(rs, draws). length draws)") auto

declare genCode.simps [simp del]

section \<open>The handlers\<close>

text \<open>
  Every handler takes the handle of the calling socket, the fields of its payload, the
  values that \<open>Date.now()\<close> and \<open>Math.random()\<close> return while it runs, and the registry
  \<open>rooms\<close>; it returns the registry and what it sent, in the order of the calls.
\<close>

definition new_user :: "handle \<Rightarrow> jstring \<Rightarrow> nat \<Rightarrow> user" where
  "new_user sid clean now = \<lparr>uid = sid, name = clean, joinedAt = now\<rparr>"

text \<open>
  \<open>create_room\<close>. When \<open>genCode\<close> does not return, nothing after it runs and the registry
  is as before.
\<close>

definition create_room ::
  "handle \<Rightarrow> js_value \<Rightarrow> double list \<Rightarrow> double \<Rightarrow> nat \<Rightarrow> rooms \<Rightarrow> rooms \<times> out list" where
  "create_room sid rawName draws rnd now rs =
     (case genCode rs draws of
        None \<Rightarrow> (rs, [])
      | Some rid \<Rightarrow>
          (let r = \<lparr>users = [], hostId = sid, spins = 0, lockUntil = None, pendingHostId = None\<rparr>;
               clean = uniqueName r (sanitizeName rawName rnd);
               r' = r\<lparr>users := AList.update sid (new_user sid clean now) (users r)\<rparr>;
               rs' = AList.update rid r' rs
           in (rs', [SocketJoin sid rid, Callback sid (AckRoom rid)] @ emitState rs' rid)))"

definition join_room ::
  "handle \<Rightarrow> roomId \<Rightarrow> js_value \<Rightarrow> double \<Rightarrow> nat \<Rightarrow> rooms \<Rightarrow> rooms \<times> out list" where
  "join_room sid rid rawName rnd now rs =
     (case map_of rs rid of
        None \<Rightarrow>
          (rs, [Callback sid (AckError ''ROOM_NOT_FOUND''), ToSocket sid (JoinError ''Room not found'')])
      | Some r \<Rightarrow>
          (let clean = uniqueName r (sanitizeName rawName rnd);
               r' = r\<lparr>users := AList.update sid (new_user sid clean now) (users r)\<rparr>;
               rs' = AList.update rid r' rs
           in (rs', [SocketJoin sid rid, Callback sid (AckRoom rid)] @ emitState rs' rid)))"

definition leave_room :: "handle \<Rightarrow> roomId \<Rightarrow> rooms \<Rightarrow> rooms \<times> out list" where
  "leave_room sid rid rs =
     (case map_of rs rid of
        None \<Rightarrow> (rs, [Callback sid AckOk])
      | Some r \<Rightarrow>
          (let r1 = r\<lparr>users := AList.delete sid (users r)\<rparr>
           in if hostId r1 = sid then
                (case first_key (users r1) of
                   Some next \<Rightarrow>
                     (let rs' = AList.update rid (r1\<lparr>hostId := next\<rparr>) rs
                      in (rs', [SocketLeave sid rid] @ emitState rs' rid @ [Callback sid AckOk]))
                 | None \<Rightarrow> (AList.delete rid rs, [SocketLeave sid rid, Callback sid AckOk]))
              else
                (let rs' = AList.update rid r1 rs
                 in (rs', [SocketLeave sid rid] @ emitState rs' rid @ [Callback sid AckOk]))))"

definition set_name ::
  "handle \<Rightarrow> roomId \<Rightarrow> js_value \<Rightarrow> double \<Rightarrow> rooms \<Rightarrow> rooms \<times> out list" where
  "set_name sid rid rawName rnd rs =
     (case map_of rs rid of
        None \<Rightarrow> (rs, [Callback sid AckFail])
      | Some r \<Rightarrow>
          (case map_of (users r) sid of
             None \<Rightarrow> (rs, [Callback sid AckFail])
           | Some u \<Rightarrow>
               (let clean = uniqueName r (sanitizeName rawName rnd);
                    r' = r\<lparr>users := AList.update sid (u\<lparr>name := clean\<rparr>) (users r)\<rparr>;
                    rs' = AList.update rid r' rs
                in (rs', emitState rs' rid @ [Callback sid (AckName clean)]))))"

text \<open>
  \<open>spin_request\<close>. \<open>finished\<close> is \<^verbatim>\<open>!room.lockUntil || now >= room.lockUntil\<close> and
  \<open>lock_active\<close> is \<^verbatim>\<open>room.lockUntil && now < room.lockUntil\<close>; a \<open>lockUntil\<close> of 0 is
  falsy, as \<open>null\<close> is. The handler reads the clock twice, for \<open>now\<close> and for \<open>seed\<close>. The
  timer it sets at the end is the event \<open>Commit\<close> below.
\<close>

definition finished :: "room \<Rightarrow> nat \<Rightarrow> bool" where
  "finished r now = (case lockUntil r of None \<Rightarrow> True | Some t \<Rightarrow> t = 0 \<or> t \<le> now)"

definition lock_active :: "room \<Rightarrow> nat \<Rightarrow> bool" where
  "lock_active r now = (case lockUntil r of None \<Rightarrow> False | Some t \<Rightarrow> t \<noteq> 0 \<and> now < t)"

definition turn_order :: "room \<Rightarrow> user list" where
  "turn_order r = take 10 (sort_key joinedAt (map snd (users r)))"

definition spin_request ::
  "handle \<Rightarrow> roomId \<Rightarrow> nat \<Rightarrow> nat \<Rightarrow> double \<Rightarrow> double \<Rightarrow> rooms \<Rightarrow> rooms \<times> out list" where
  "spin_request sid rid now seed rndTurns rndDuration rs =
     (case map_of rs rid of
        None \<Rightarrow> (rs, [])
      | Some r \<Rightarrow>
          (let isCurrentHost = (hostId r = sid);
               isPendingWinnerNowHost = (pendingHostId r = Some sid \<and> finished r now)
           in if \<not> isCurrentHost \<and> \<not> isPendingWinnerNowHost then (rs, [])
              else if lock_active r now then
                (rs, [ToSocket sid (SpinDenied ''A spin is already in progress.'')])
              else
                (let order = turn_order r
                 in if length order < 2 then
                      (rs, [ToSocket sid (SpinDenied ''Need at least 2 players.'')])
                    else
                      (let idx = seededPick (int seed) (length order);
                           winnerId = uid (order ! idx);
                           nturns = 4 + dfloor (dmul_nat rndTurns 2);
                           duration = 3400 + dfloor (dmul_nat rndDuration 400);
                           start = now + 600;
                           switchAt = start + duration + 250;
                           r' = r\<lparr>spins := spins r + 1, lockUntil := Some switchAt,
                                  pendingHostId := Some winnerId\<rparr>
                       in (AList.update rid r' rs,
                           [ToRoom rid (SpinStart
                              \<lparr>orderIds = map uid order, targetIndex = idx,
                               durationMs = duration, turns = nturns, startAt = start,
                               nextHostId = winnerId, hostSwitchAt = switchAt,
                               spinsSent = spins r'\<rparr>)])))))"

text \<open>
  The deferred commit, the function that \<open>spin_request\<close> hands to \<open>setTimeout\<close>:
  \<^verbatim>\<open>const r = rooms.get(roomId); if (!r) return;
  const stillHere = r.users.has(r.pendingHostId);
  r.hostId = stillHere ? r.pendingHostId : ([...r.users.keys()][0] || r.hostId);
  r.pendingHostId = null; r.lockUntil = null; emitState(roomId);\<close>
\<close>

definition fallback_host :: "room \<Rightarrow> handle" where
  "fallback_host r = (case first_key (users r) of Some k \<Rightarrow> k | None \<Rightarrow> hostId r)"

definition commit_host :: "room \<Rightarrow> handle" where
  "commit_host r =
     (case pendingHostId r of
        None \<Rightarrow> fallback_host r
      | Some p \<Rightarrow> if has p (users r) then p else fallback_host r)"

definition commit :: "roomId \<Rightarrow> rooms \<Rightarrow> rooms \<times> out list" where
  "commit rid rs =
     (case map_of rs rid of
        None \<Rightarrow> (rs, [])
      | Some r \<Rightarrow>
          (let r' = r\<lparr>hostId := commit_host r, pendingHostId := None, lockUntil := None\<rparr>;
               rs' = AList.update rid r' rs
           in (rs', emitState rs' rid)))"

text \<open>
  \<open>disconnect\<close> walks over all rooms; a room that does not hold the socket is skipped, a
  room that loses its host and has no next one is deleted and sends nothing.
\<close>

fun disconnect :: "handle \<Rightarrow> rooms \<Rightarrow> rooms \<times> out list" where
  "disconnect sid [] = ([], [])"
| "disconnect sid ((rid, r) # rest) =
     (let (rest', outs) = disconnect sid rest
      in if \<not> has sid (users r) then ((rid, r) # rest', outs)
         else
           (let r1 = r\<lparr>users := AList.delete sid (users r)\<rparr>
            in if hostId r1 = sid then
                 (case first_key (users r1) of
                    Some next \<Rightarrow>
                      (let r2 = r1\<lparr>hostId := next\<rparr>
                       in ((rid, r2) # rest', ToRoom rid (room_state rid r2) # outs))
                  | None \<Rightarrow> (rest', outs))
               else ((rid, r1) # rest', ToRoom rid (room_state rid r1) # outs)))"

section \<open>The server as a transition system\<close>

text \<open>
  An event is one call of a handler, or one firing of a timer that a spin has set. The
  timer holds the join code only, and it may fire at any moment.
\<close>

datatype event =
    CreateRoom handle js_value "double list" double nat
  | JoinRoom handle roomId js_value double nat
  | LeaveRoom handle roomId
  | SetName handle roomId js_value double
  | SpinRequest handle roomId nat nat double double
  | Disconnect handle
  | Commit roomId

fun step :: "event \<Rightarrow> rooms \<Rightarrow> rooms \<times> out list" where
  "step (CreateRoom sid rawName draws rnd now) rs = create_room sid rawName draws rnd now rs"
| "step (JoinRoom sid rid rawName rnd now) rs = join_room sid rid rawName rnd now rs"
| "step (LeaveRoom sid rid) rs = leave_room sid rid rs"
| "step (SetName sid rid rawName rnd) rs = set_name sid rid rawName rnd rs"
| "step (SpinRequest sid rid now seed rt rd) rs = spin_request sid rid now seed rt rd rs"
| "step (Disconnect sid) rs = disconnect sid rs"
| "step (Commit rid) rs = commit rid rs"

text \<open>The registry after a list of events, from the empty registry of a fresh server.\<close>

fun run :: "event list \<Rightarrow> rooms \<Rightarrow> rooms" where
  "run [] rs = rs"
| "run (e # es) rs = run es (fst (step e rs))"

inductive reachable :: "rooms \<Rightarrow> bool" where
  reach_start: "reachable []"
| reach_step: "reachable rs \<Longrightarrow> reachable (fst (step e rs))"

section \<open>A worked trace\<close>

text \<open>
  Names for the values of the examples: six draws that give the join code \<open>AS9KPM\<close>, and
  three users of that room.
\<close>

abbreviation ex_zero :: double where
  "ex_zero \<equiv> Double 0 0"

abbreviation ex_half :: double where
  "ex_half \<equiv> Double 1 (- 1)"

abbreviation ex_draws :: "double list" where
  "ex_draws \<equiv> [Double 17 (- 10), Double 512 (- 10), Double 1007 (- 10), Double 314 (- 10),
               Double 413 (- 10), Double 347 (- 10)]"

abbreviation ex_a :: user where
  "ex_a \<equiv> \<lparr>uid = ''a'', name = js ''Alex'', joinedAt = 1000\<rparr>"

abbreviation ex_b :: user where
  "ex_b \<equiv> \<lparr>uid = ''b'', name = js ''alex 2'', joinedAt = 1001\<rparr>"

abbreviation ex_c :: user where
  "ex_c \<equiv> \<lparr>uid = ''c'', name = js ''Cleo'', joinedAt = 1002\<rparr>"

section \<open>Invariants of a room\<close>

text \<open>
  The host is a key of \<open>users\<close>, and a pending host is there only while a lock is.
\<close>

definition host_ok :: "room \<Rightarrow> bool" where
  "host_ok r = has (hostId r) (users r)"

definition lock_ok :: "room \<Rightarrow> bool" where
  "lock_ok r = (pendingHostId r \<noteq> None \<longrightarrow> lockUntil r \<noteq> None)"

definition room_inv :: "room \<Rightarrow> bool" where
  "room_inv r = (host_ok r \<and> lock_ok r)"

definition rooms_inv :: "rooms \<Rightarrow> bool" where
  "rooms_inv rs = list_all (\<lambda>(rid, r). room_inv r) rs"

section \<open>Maps as association lists\<close>

lemma has_iff: "has k m \<longleftrightarrow> k \<in> fst ` set m"
  by (simp add: has_def map_of_eq_None_iff)

lemma has_update: "has k (AList.update k' v m) \<longleftrightarrow> k = k' \<or> has k m"
  by (auto simp: has_iff dom_update)

lemma has_delete: "has k (AList.delete k' m) \<longleftrightarrow> k \<noteq> k' \<and> has k m"
  by (simp add: has_def delete_conv')

lemma first_key_has: "first_key m = Some k \<Longrightarrow> has k m"
  by (auto simp: first_key_def has_def split: list.splits if_splits)

section \<open>Rounding to a double\<close>

lemma powi_split: "i \<le> j \<Longrightarrow> (2::real) powi j = 2 ^ nat (j - i) * 2 powi i"
proof -
  assume ij: "i \<le> j"
  have "(2::real) powi (int (nat (j - i)) + i) = 2 powi int (nat (j - i)) * 2 powi i"
    by (rule power_int_add) simp
  moreover have "int (nat (j - i)) + i = j" using ij by simp
  ultimately show ?thesis by (simp only: power_int_of_nat)
qed

lemma scale_exponent_le:
  assumes "of_int a * 2 powi i < (of_int b :: real) * 2 powi j"
    and "2 ^ (p - 1) \<le> a" and "b \<le> 2 ^ p" and "0 < p"
  shows "i \<le> j"
proof (rule ccontr)
  assume "\<not> i \<le> j"
  then have ji: "j \<le> i - 1" by simp
  have b: "(of_int b :: real) \<le> 2 ^ p"
  proof -
    have "(of_int b :: real) \<le> of_int (2 ^ p)" using assms(3) by (simp only: of_int_le_iff)
    then show ?thesis by simp
  qed
  have a: "2 ^ (p - 1) \<le> (of_int a :: real)"
  proof -
    have "(of_int (2 ^ (p - 1)) :: real) \<le> of_int a" using assms(2) by (simp only: of_int_le_iff)
    then show ?thesis by simp
  qed
  have pp: "(2::real) ^ p = 2 * 2 ^ (p - 1)"
    using assms(4) by (cases p) simp_all
  have "of_int b * 2 powi j \<le> 2 ^ p * (2::real) powi j"
    using b by (intro mult_right_mono) simp_all
  also have "\<dots> \<le> 2 ^ p * 2 powi (i - 1)"
    using ji by (intro mult_left_mono power_int_increasing) simp_all
  also have "\<dots> = 2 ^ (p - 1) * 2 powi i"
    by (simp add: pp power_int_diff)
  also have "\<dots> \<le> of_int a * 2 powi i"
    using a by (intro mult_right_mono) simp_all
  finally show False using assms(1) by simp
qed

lemma round_bits_cases:
  assumes "0 \<le> m" and "0 < p"
  obtains (exact) "round_bits p m e = Double m e" and "m < 2 ^ p"
  | (rounded) s q r q' where "0 < s" and "m = q * 2 ^ s + r" and "0 \<le> r" and "r < 2 ^ s"
      and "2 ^ (p - 1) \<le> q" and "q < 2 ^ p"
      and "round_bits p m e = Double q' (e + int s)"
      and "q' = q \<or> q' = q + 1"
      and "q' = q + 1 \<Longrightarrow> 2 ^ s \<le> 2 * r"
      and "2 * r < 2 ^ s \<Longrightarrow> q' = q"
proof (cases "bitlen m \<le> int p")
  case True
  have "m < 2 ^ p"
  proof (cases "m = 0")
    case True
    then show ?thesis by simp
  next
    case False
    with assms(1) have "0 < m" by simp
    then have "m < 2 ^ nat (bitlen m)" using bitlen_bounds [of m] by simp
    also have "(2::int) ^ nat (bitlen m) \<le> 2 ^ p"
      using True by (intro power_increasing) simp_all
    finally show ?thesis .
  qed
  moreover from True have "round_bits p m e = Double m e" by (simp add: round_bits_def)
  ultimately show ?thesis by (rule exact [rotated])
next
  case False
  define s where "s = nat (bitlen m - int p)"
  define q where "q = m div 2 ^ s"
  define r where "r = m mod 2 ^ s"
  define h :: int where "h = 2 ^ (s - 1)"
  define q' where "q' = (if h < r \<or> (r = h \<and> odd q) then q + 1 else q)"
  from False have s: "0 < s" by (simp add: s_def)
  from False have mpos: "0 < m" using bitlen_eq_zero_iff [of m] bitlen_nonneg [of m] assms(1)
    by (cases "m = 0") auto
  have bl: "nat (bitlen m) = p + s" "nat (bitlen m - 1) = p - 1 + s"
    using False assms(2) by (simp_all add: s_def)
  from bitlen_bounds [OF mpos] have lo: "2 ^ (p - 1 + s) \<le> m" and hi: "m < 2 ^ (p + s)"
    by (simp_all add: bl)
  have m: "m = q * 2 ^ s + r" using div_mult_mod_eq [of m "2 ^ s"] by (simp add: q_def r_def)
  have r0: "0 \<le> r" and r1: "r < 2 ^ s" by (simp_all add: r_def)
  have q1: "q < 2 ^ p"
  proof -
    have "q * 2 ^ s \<le> m" using m r0 by simp
    also have "m < 2 ^ p * 2 ^ s" using hi by (simp add: power_add)
    finally show ?thesis by (simp only: mult_less_cancel_right_pos zero_less_power zero_less_numeral)
  qed
  have q0: "2 ^ (p - 1) \<le> q"
  proof -
    have "2 ^ (p - 1) * 2 ^ s \<le> m" using lo by (simp add: power_add)
    also have "m < (q + 1) * 2 ^ s" using m r1 by (simp add: algebra_simps)
    finally have "(2::int) ^ (p - 1) < q + 1"
      by (simp only: mult_less_cancel_right_pos zero_less_power zero_less_numeral)
    then show ?thesis by simp
  qed
  have hh: "2 * h = 2 ^ s" using s by (cases s) (simp_all add: h_def)
  have res: "round_bits p m e = Double q' (e + int s)"
    using False by (simp add: round_bits_def Let_def s_def q_def r_def h_def q'_def)
  have c1: "q' = q \<or> q' = q + 1" by (simp add: q'_def)
  have c2: "q' = q + 1 \<Longrightarrow> 2 ^ s \<le> 2 * r" using hh by (auto simp: q'_def split: if_splits)
  have c3: "2 * r < 2 ^ s \<Longrightarrow> q' = q" using hh by (auto simp: q'_def)
  from s m r0 r1 q0 q1 res c1 c2 c3 show ?thesis by (rule rounded)
qed


lemma val_Double [simp]: "val (Double m e) = of_int m * 2 powi e"
  by (simp add: val_def)

lemma int_scale_less:
  "(of_int a :: real) * 2 powi i < of_int b * 2 powi i \<longleftrightarrow> a < b"
  by simp

lemma rescale: "i \<le> j \<Longrightarrow> (of_int b :: real) * 2 powi j = of_int (b * 2 ^ nat (j - i)) * 2 powi i"
  by (simp add: powi_split [of i j])

text \<open>Rounding never crosses a number that has \<open>p\<close> bits itself.\<close>

lemma round_bits_le:
  assumes "0 \<le> m" and "0 < p" and "K < 2 ^ p"
    and le: "of_int m * 2 powi e \<le> (of_int K :: real) * 2 powi k"
  shows "val (round_bits p m e) \<le> of_int K * 2 powi k"
  using assms(1,2)
proof (cases rule: round_bits_cases [where e = e])
  case exact
  with le show ?thesis by simp
next
  case (rounded s q r q')
  let ?X = "(2::real) powi (e + int s)"
  have mX: "(of_int m :: real) * 2 powi e = (of_int q + of_int r / 2 ^ s) * ?X"
    by (simp add: rounded(2) power_int_add algebra_simps)
  show ?thesis
  proof (cases "q' = q")
    case True
    have "of_int q * ?X \<le> (of_int q + of_int r / 2 ^ s) * ?X"
      using rounded(3) by (intro mult_right_mono) simp_all
    also have "\<dots> = of_int m * 2 powi e" by (rule mX [symmetric])
    also note le
    finally show ?thesis using True rounded(7) by simp
  next
    case False
    with rounded(8) have q': "q' = q + 1" by simp
    from rounded(9) [OF q'] have "0 < r" using zero_less_power [of "2::int" s] by linarith
    then have "of_int q * ?X < (of_int q + of_int r / 2 ^ s) * ?X"
      by (intro mult_strict_right_mono) simp_all
    also have "\<dots> = of_int m * 2 powi e" by (rule mX [symmetric])
    also note le
    finally have lt: "of_int q * ?X < (of_int K :: real) * 2 powi k" .
    from assms(3) have K: "K \<le> 2 ^ p" by simp
    from scale_exponent_le [OF lt rounded(5) K assms(2)] have ek: "e + int s \<le> k" .
    from lt have "q < K * 2 ^ nat (k - (e + int s))"
      unfolding rescale [OF ek] by (simp only: int_scale_less)
    then have "q + 1 \<le> K * 2 ^ nat (k - (e + int s))" by simp
    then have "(of_int (q + 1) :: real) \<le> of_int (K * 2 ^ nat (k - (e + int s)))"
      by (simp only: of_int_le_iff)
    then have "(of_int (q + 1) :: real) * ?X \<le> of_int (K * 2 ^ nat (k - (e + int s))) * ?X"
      by (intro mult_right_mono) simp_all
    then show ?thesis unfolding rescale [OF ek] using q' rounded(7) by simp
  qed
qed

lemma round_bits_ge:
  assumes "0 \<le> m" and "0 < p" and "K < 2 ^ p"
    and ge: "(of_int K :: real) * 2 powi k \<le> of_int m * 2 powi e"
  shows "of_int K * 2 powi k \<le> val (round_bits p m e)"
  using assms(1,2)
proof (cases rule: round_bits_cases [where e = e])
  case exact
  with ge show ?thesis by simp
next
  case (rounded s q r q')
  let ?X = "(2::real) powi (e + int s)"
  have mX: "(of_int m :: real) * 2 powi e = (of_int q + of_int r / 2 ^ s) * ?X"
    by (simp add: rounded(2) power_int_add algebra_simps)
  have qq: "q \<le> q'" using rounded(8) by auto
  show ?thesis
  proof (rule ccontr)
    assume "\<not> ?thesis"
    then have lt': "of_int q' * ?X < (of_int K :: real) * 2 powi k"
      using rounded(7) by simp
    have "(of_int q :: real) * ?X \<le> of_int q' * ?X"
      using qq by (intro mult_right_mono) simp_all
    also note lt'
    finally have lt: "of_int q * ?X < (of_int K :: real) * 2 powi k" .
    from assms(3) have K: "K \<le> 2 ^ p" by simp
    from scale_exponent_le [OF lt rounded(5) K assms(2)] have ek: "e + int s \<le> k" .
    from lt have "q < K * 2 ^ nat (k - (e + int s))"
      unfolding rescale [OF ek] by (simp only: int_scale_less)
    then have "q + 1 \<le> K * 2 ^ nat (k - (e + int s))" by simp
    then have "(of_int (q + 1) :: real) \<le> of_int (K * 2 ^ nat (k - (e + int s)))"
      by (simp only: of_int_le_iff)
    then have "(of_int (q + 1) :: real) * ?X \<le> of_int (K * 2 ^ nat (k - (e + int s))) * ?X"
      by (intro mult_right_mono) simp_all
    then have a: "(of_int q + 1) * ?X \<le> of_int K * 2 powi k"
      unfolding rescale [OF ek] by simp
    have "r < 2 ^ s" by (rule rounded(4))
    then have "(of_int r :: real) < of_int (2 ^ s)" by (simp only: of_int_less_iff)
    then have "of_int r / 2 ^ s < (1::real)" by (simp add: divide_less_eq)
    then have "(of_int q + of_int r / 2 ^ s) * ?X < (of_int q + 1) * ?X"
      by (intro mult_strict_right_mono) simp_all
    also note a
    finally have "(of_int q + of_int r / 2 ^ s) * ?X < of_int K * 2 powi k" .
    with mX ge show False by simp
  qed
qed


text \<open>Rounding to nearest: below the midpoint of two neighbours the lower one is the result.\<close>

lemma round_bits_below_midpoint:
  assumes "0 \<le> m" and "0 < p" and "2 ^ (p - 1) \<le> K" and "K < 2 ^ p"
    and lt: "of_int m * 2 powi e < (of_int K + 1 / 2 :: real) * 2 powi k"
  shows "val (round_bits p m e) \<le> of_int K * 2 powi k"
proof (cases "of_int m * 2 powi e \<le> (of_int K :: real) * 2 powi k")
  case True
  with assms(1,2,4) show ?thesis by (rule round_bits_le)
next
  case False
  then have gt: "(of_int K :: real) * 2 powi k < of_int m * 2 powi e" by simp
  from assms(1,2) show ?thesis
  proof (cases rule: round_bits_cases [where e = e])
    case exact
    from exact(2) have m: "m \<le> 2 ^ p" by simp
    from scale_exponent_le [OF gt assms(3) m assms(2)] have ke: "k \<le> e" .
    define M where "M = m * 2 ^ nat (e - k)"
    have mM: "(of_int m :: real) * 2 powi e = of_int M * 2 powi k"
      unfolding M_def by (rule rescale [OF ke])
    from gt have "K < M" unfolding mM by (simp only: int_scale_less)
    moreover from lt have "(of_int M :: real) < of_int K + 1 / 2" unfolding mM by simp
    then have "M \<le> K" by linarith
    ultimately show ?thesis by simp
  next
    case (rounded s q r q')
    let ?X = "(2::real) powi (e + int s)"
    define f :: real where "f = of_int r / 2 ^ s"
    have mX: "(of_int m :: real) * 2 powi e = (of_int q + f) * ?X"
      by (simp add: f_def rounded(2) power_int_add algebra_simps)
    have f0: "0 \<le> f" using rounded(3) by (simp add: f_def)
    have "(of_int r :: real) < of_int (2 ^ s)" using rounded(4) by (simp only: of_int_less_iff)
    then have f1: "f < 1" by (simp add: f_def divide_less_eq)
    have "of_int q * ?X \<le> (of_int q + f) * ?X" using f0 by (intro mult_right_mono) simp_all
    also have "\<dots> < (of_int K + 1 / 2) * 2 powi k" using lt by (simp only: mX)
    also have "\<dots> \<le> (of_int K + 1) * 2 powi k" by (intro mult_right_mono) simp_all
    finally have "of_int q * ?X < (of_int (K + 1) :: real) * 2 powi k" by simp
    moreover have "K + 1 \<le> 2 ^ p" using assms(4) by simp
    ultimately have ek: "e + int s \<le> k"
      using rounded(5) assms(2) by (intro scale_exponent_le [of q "e + int s" "K + 1" k p])
    have "(of_int K :: real) * 2 powi k < (of_int q + f) * ?X" using gt by (simp only: mX)
    also have "\<dots> < (of_int q + 1) * ?X"
      using f1 by (intro mult_strict_right_mono) simp_all
    finally have "(of_int K :: real) * 2 powi k < of_int (q + 1) * ?X" by simp
    moreover have "q + 1 \<le> 2 ^ p" using rounded(6) by simp
    ultimately have ke: "k \<le> e + int s"
      using assms(2,3) by (intro scale_exponent_le [of K k "q + 1" "e + int s" p])
    from ek ke have k: "e + int s = k" by simp
    from gt have "of_int K < of_int q + f" unfolding mX k by simp
    with f1 have "K \<le> q" by linarith
    from lt have qf: "of_int q + f < of_int K + 1 / 2" unfolding mX k by simp
    with f0 have "q \<le> K" by linarith
    with \<open>K \<le> q\<close> have qK: "q = K" by simp
    from qf have "f < 1 / 2" by (simp add: qK)
    then have "of_int r * 2 < (2::real) ^ s" by (simp add: f_def divide_less_eq)
    then have "(of_int (2 * r) :: real) < of_int (2 ^ s)" by (simp add: mult.commute)
    then have "2 * r < 2 ^ s" by (simp only: of_int_less_iff)
    from rounded(10) [OF this] rounded(7) show ?thesis by (simp add: qK k)
  qed
qed

lemma round_bits_mantissa: "0 \<le> m \<Longrightarrow> 0 < p \<Longrightarrow> 0 \<le> mantissa (round_bits p m e)"
proof -
  assume a: "0 \<le> m" "0 < p"
  then show ?thesis
  proof (cases rule: round_bits_cases [where e = e])
    case exact
    with a show ?thesis by simp
  next
    case (rounded s q r q')
    have "(0::int) \<le> 2 ^ (p - 1)" by simp
    with rounded(5,8) have "0 \<le> q'" by linarith
    with rounded(7) show ?thesis by simp
  qed
qed

lemma dfloor_bounds:
  assumes "0 \<le> mantissa d"
  shows "real (dfloor d) \<le> val d \<and> val d < real (dfloor d) + 1"
proof (cases "0 \<le> exponent d")
  case True
  then have "val d = real (dfloor d)"
    using assms by (simp add: val_def dfloor_def power_int_def)
  then show ?thesis by simp
next
  case False
  define n where "n = nat (- exponent d)"
  define m where "m = mantissa d"
  from False have e: "exponent d = - int n" by (simp add: n_def)
  have v: "val d = of_int m / 2 ^ n"
    by (simp add: val_def e m_def power_int_minus field_simps)
  have "0 \<le> m div 2 ^ n" using assms by (simp add: m_def pos_imp_zdiv_nonneg_iff)
  then have fl: "real (dfloor d) = of_int (m div 2 ^ n)"
    using False by (simp add: dfloor_def n_def m_def)
  have "(of_int (m div 2 ^ n) :: real) = of_int \<lfloor>(of_int m :: real) / of_int (2 ^ n)\<rfloor>"
    by (simp only: floor_divide_of_int_eq)
  then have "(of_int (m div 2 ^ n) :: real) = of_int \<lfloor>val d\<rfloor>" by (simp add: v)
  with fl have "real (dfloor d) = of_int \<lfloor>val d\<rfloor>" by simp
  then show ?thesis by linarith
qed


text \<open>A draw of \<open>Math.random()\<close> is at most the largest number with 53 bits below 1.\<close>

lemma random_val:
  assumes "is_random r"
  shows "0 \<le> val r \<and> val r \<le> 1 - 1 / 2 ^ 53"
proof (cases "mantissa r = 0")
  case True
  then show ?thesis by (simp add: val_def)
next
  case False
  define m where "m = mantissa r"
  define n where "n = nat (- exponent r)"
  from assms False have m0: "0 \<le> m" and m53: "m < 2 ^ 53" and e: "exponent r = - int n"
    and mn: "m < 2 ^ n"
    by (simp_all add: is_random_def m_def n_def)
  have v: "val r = of_int m / 2 ^ n"
    by (simp add: val_def e m_def power_int_minus field_simps)
  have "of_int m * (2::real) ^ 53 \<le> 2 ^ n * (2 ^ 53 - 1)"
  proof (cases "n \<le> 53")
    case True
    from mn have "m \<le> 2 ^ n - 1" by simp
    then have "(of_int m :: real) \<le> of_int (2 ^ n - 1)" by (simp only: of_int_le_iff)
    then have "(of_int m :: real) \<le> 2 ^ n - 1" by simp
    then have "of_int m * (2::real) ^ 53 \<le> (2 ^ n - 1) * 2 ^ 53"
      by (intro mult_right_mono) simp_all
    also have "\<dots> = 2 ^ n * 2 ^ 53 - 2 ^ 53" by (simp add: algebra_simps)
    also have "\<dots> \<le> 2 ^ n * 2 ^ 53 - (2::real) ^ n"
      using True power_increasing [of n 53 "2::real"] by simp
    also have "\<dots> = 2 ^ n * (2 ^ 53 - 1)" by (simp add: algebra_simps)
    finally show ?thesis .
  next
    case False
    from m53 have "m \<le> 2 ^ 53 - 1" by simp
    then have "(of_int m :: real) \<le> of_int (2 ^ 53 - 1)" by (simp only: of_int_le_iff)
    then have "(of_int m :: real) \<le> 2 ^ 53 - 1" by simp
    then have "of_int m * (2::real) ^ 53 \<le> (2 ^ 53 - 1) * 2 ^ 53"
      by (intro mult_right_mono) simp_all
    also have "\<dots> \<le> (2 ^ 53 - 1) * (2::real) ^ n"
      using False power_increasing [of 53 n "2::real"] by (intro mult_left_mono) simp_all
    finally show ?thesis by (simp add: mult.commute)
  qed
  then have "val r \<le> (2 ^ 53 - 1) / 2 ^ 53"
    unfolding v by (simp add: field_simps)
  moreover have "0 \<le> val r" using m0 by (simp add: v)
  ultimately show ?thesis by (simp add: field_simps)
qed

lemma dmul_nat_below:
  assumes "is_random r" and "2 ^ 52 \<le> K" and "K < 2 ^ 53"
    and "real k * (1 - 1 / 2 ^ 53) < (of_int K + 1 / 2) * 2 powi i"
  shows "val (dmul_nat r k) \<le> of_int K * 2 powi i"
proof -
  from assms(1) have m: "0 \<le> mantissa r * int k" by (simp add: is_random_def)
  have "of_int (mantissa r * int k) * 2 powi exponent r = real k * val r"
    by (simp add: val_def)
  also have "\<dots> \<le> real k * (1 - 1 / 2 ^ 53)"
    using random_val [OF assms(1)] by (intro mult_left_mono) simp_all
  also note assms(4)
  finally have "of_int (mantissa r * int k) * 2 powi exponent r < (of_int K + 1 / 2 :: real) * 2 powi i" .
  with m show ?thesis
    unfolding dmul_nat_def round53_def using assms(2,3)
    by (intro round_bits_below_midpoint) simp_all
qed

lemma dmul_nat_mantissa: "is_random r \<Longrightarrow> 0 \<le> mantissa (dmul_nat r k)"
  unfolding dmul_nat_def round53_def
  by (intro round_bits_mantissa) (simp_all add: is_random_def)

lemma dadd_nat_exact:
  "val (dadd_nat k d) =
   val (round53 (if 0 \<le> exponent d then int k + mantissa d * 2 ^ nat (exponent d)
                 else int k * 2 ^ nat (- exponent d) + mantissa d)
          (if 0 \<le> exponent d then 0 else exponent d))"
  by (simp add: dadd_nat_def)

lemma dadd_nat_sum:
  "of_int (if 0 \<le> exponent d then int k + mantissa d * 2 ^ nat (exponent d)
           else int k * 2 ^ nat (- exponent d) + mantissa d)
     * 2 powi (if 0 \<le> exponent d then 0 else exponent d)
   = real k + val d"
proof (cases "0 \<le> exponent d")
  case True
  then show ?thesis by (simp add: val_def power_int_def)
next
  case False
  define n where "n = nat (- exponent d)"
  from False have e: "exponent d = - int n" by (simp add: n_def)
  show ?thesis using False
    by (simp add: val_def e power_int_minus field_simps flip: n_def)
qed

lemma placeholder_number_range:
  assumes "is_random r"
  shows "100 \<le> dfloor (dadd_nat 100 (dmul_nat r 900)) \<and>
         dfloor (dadd_nat 100 (dmul_nat r 900)) \<le> 999"
proof -
  define x where "x = dmul_nat r 900"
  define M where "M = (if 0 \<le> exponent x then int 100 + mantissa x * 2 ^ nat (exponent x)
                       else int 100 * 2 ^ nat (- exponent x) + mantissa x)"
  define E where "E = (if 0 \<le> exponent x then 0 else exponent x)"
  have x0: "0 \<le> mantissa x" unfolding x_def using assms by (rule dmul_nat_mantissa)
  have "val x \<le> of_int 7916483719987199 * 2 powi (- 43)"
    unfolding x_def using assms by (rule dmul_nat_below) (simp_all add: power_int_minus)
  then have xu: "val x \<le> 900 - 1 / 2 ^ 43" by (simp add: power_int_minus)
  have xl: "0 \<le> val x" using x0 by (simp add: val_def)
  have M0: "0 \<le> M" using x0 by (simp add: M_def)
  have sum: "of_int M * 2 powi E = 100 + val x"
    unfolding M_def E_def using dadd_nat_sum [of x 100] by simp
  have y: "val (dadd_nat 100 x) = val (round_bits 53 M E)"
    unfolding M_def E_def round53_def [symmetric] by (rule dadd_nat_exact)
  have "of_int M * 2 powi E \<le> (of_int 8796093022207999 :: real) * 2 powi (- 43)"
    using xu by (simp add: sum power_int_minus)
  with M0 have "val (round_bits 53 M E) \<le> of_int 8796093022207999 * 2 powi (- 43)"
    by (intro round_bits_le) simp_all
  then have up: "val (dadd_nat 100 x) < 1000" by (simp add: y power_int_minus)
  have "(of_int 100 :: real) * 2 powi 0 \<le> of_int M * 2 powi E"
    using xl by (simp add: sum)
  with M0 have "of_int 100 * 2 powi 0 \<le> val (round_bits 53 M E)"
    by (intro round_bits_ge) simp_all
  then have lo: "100 \<le> val (dadd_nat 100 x)" by (simp add: y)
  have "0 \<le> mantissa (dadd_nat 100 x)"
    unfolding dadd_nat_def round53_def using x0
    by (auto intro!: round_bits_mantissa)
  from dfloor_bounds [OF this] lo up show ?thesis unfolding x_def by linarith
qed

lemma alphabet_index_range:
  assumes "is_random r"
  shows "dfloor (dmul_nat r 31) < 31"
proof -
  have "val (dmul_nat r 31) \<le> of_int 8725724278030335 * 2 powi (- 48)"
    using assms by (rule dmul_nat_below) (simp_all add: power_int_minus)
  then have "val (dmul_nat r 31) < 31" by (simp add: power_int_minus)
  with dfloor_bounds [OF dmul_nat_mantissa [OF assms, of 31]] show ?thesis by linarith
qed

section \<open>Every handler keeps the invariants\<close>

lemma rooms_inv_update: "rooms_inv rs \<Longrightarrow> room_inv r \<Longrightarrow> rooms_inv (AList.update k r rs)"
  by (induction rs) (auto simp: rooms_inv_def)

lemma rooms_inv_delete: "rooms_inv rs \<Longrightarrow> rooms_inv (AList.delete k rs)"
  by (induction rs) (auto simp: rooms_inv_def)

lemma rooms_inv_lookup: "rooms_inv rs \<Longrightarrow> map_of rs k = Some r \<Longrightarrow> room_inv r"
  by (induction rs) (auto simp: rooms_inv_def split: if_splits)

lemma create_room_inv: "rooms_inv rs \<Longrightarrow> rooms_inv (fst (create_room sid raw draws rnd now rs))"
proof (cases "genCode rs draws")
  case None
  assume "rooms_inv rs"
  with None show ?thesis by (simp add: create_room_def)
next
  case (Some rid)
  assume inv: "rooms_inv rs"
  have "room_inv \<lparr>users = [(sid, u)], hostId = sid, spins = 0, lockUntil = None,
      pendingHostId = None\<rparr>" for u
    by (simp add: room_inv_def host_ok_def lock_ok_def has_def)
  with inv Some show ?thesis
    by (simp add: create_room_def Let_def rooms_inv_update)
qed

lemma join_room_inv: "rooms_inv rs \<Longrightarrow> rooms_inv (fst (join_room sid rid raw rnd now rs))"
proof (cases "map_of rs rid")
  case None
  assume "rooms_inv rs"
  with None show ?thesis by (simp add: join_room_def)
next
  case (Some r)
  assume inv: "rooms_inv rs"
  then have "room_inv r" using Some by (rule rooms_inv_lookup)
  then have "room_inv (r\<lparr>users := AList.update sid u (users r)\<rparr>)" for u
    by (simp add: room_inv_def host_ok_def lock_ok_def has_update)
  with inv Some show ?thesis
    by (simp add: join_room_def Let_def rooms_inv_update)
qed

lemma leave_room_inv: "rooms_inv rs \<Longrightarrow> rooms_inv (fst (leave_room sid rid rs))"
proof (cases "map_of rs rid")
  case None
  assume "rooms_inv rs"
  with None show ?thesis by (simp add: leave_room_def)
next
  case (Some r)
  assume inv: "rooms_inv rs"
  then have r: "room_inv r" using Some by (rule rooms_inv_lookup)
  let ?r1 = "r\<lparr>users := AList.delete sid (users r)\<rparr>"
  have a: "hostId r \<noteq> sid \<Longrightarrow> room_inv ?r1"
    using r by (simp add: room_inv_def host_ok_def lock_ok_def has_delete)
  have b: "first_key (AList.delete sid (users r)) = Some k \<Longrightarrow> room_inv (?r1\<lparr>hostId := k\<rparr>)" for k
    using r by (simp add: room_inv_def host_ok_def lock_ok_def first_key_has)
  show ?thesis
    using inv Some a b
    by (simp add: leave_room_def Let_def rooms_inv_update rooms_inv_delete split: option.splits)
qed

lemma set_name_inv: "rooms_inv rs \<Longrightarrow> rooms_inv (fst (set_name sid rid raw rnd rs))"
proof (cases "map_of rs rid")
  case None
  assume "rooms_inv rs"
  with None show ?thesis by (simp add: set_name_def)
next
  case (Some r)
  assume inv: "rooms_inv rs"
  then have "room_inv r" using Some by (rule rooms_inv_lookup)
  then have "room_inv (r\<lparr>users := AList.update sid u (users r)\<rparr>)" for u
    by (simp add: room_inv_def host_ok_def lock_ok_def has_update)
  with inv Some show ?thesis
    by (simp add: set_name_def Let_def rooms_inv_update split: option.splits)
qed

lemma spin_request_inv: "rooms_inv rs \<Longrightarrow> rooms_inv (fst (spin_request sid rid now seed rt rd rs))"
proof (cases "map_of rs rid")
  case None
  assume "rooms_inv rs"
  with None show ?thesis by (simp add: spin_request_def)
next
  case (Some r)
  assume inv: "rooms_inv rs"
  then have "room_inv r" using Some by (rule rooms_inv_lookup)
  then have "room_inv (r\<lparr>spins := n, lockUntil := Some t, pendingHostId := p\<rparr>)" for n t p
    by (simp add: room_inv_def host_ok_def lock_ok_def)
  with inv Some show ?thesis
    by (simp add: spin_request_def Let_def rooms_inv_update)
qed

lemma commit_host_has: "has (hostId r) (users r) \<Longrightarrow> has (commit_host r) (users r)"
  by (auto simp: commit_host_def fallback_host_def dest: first_key_has split: option.splits)

lemma commit_inv: "rooms_inv rs \<Longrightarrow> rooms_inv (fst (commit rid rs))"
proof (cases "map_of rs rid")
  case None
  assume "rooms_inv rs"
  with None show ?thesis by (simp add: commit_def)
next
  case (Some r)
  assume inv: "rooms_inv rs"
  then have "room_inv r" using Some by (rule rooms_inv_lookup)
  then have "room_inv (r\<lparr>hostId := commit_host r, pendingHostId := None, lockUntil := None\<rparr>)"
    by (simp add: room_inv_def host_ok_def lock_ok_def commit_host_has)
  with inv Some show ?thesis
    by (simp add: commit_def Let_def rooms_inv_update)
qed

lemma disconnect_inv: "rooms_inv rs \<Longrightarrow> rooms_inv (fst (disconnect sid rs))"
proof (induction rs)
  case Nil
  then show ?case by (simp add: rooms_inv_def)
next
  case (Cons a rs)
  obtain rid r where a: "a = (rid, r)" by (cases a)
  obtain rest' outs where d: "disconnect sid rs = (rest', outs)" by (cases "disconnect sid rs")
  from Cons.prems a have r: "room_inv r" and rs: "rooms_inv rs" by (auto simp: rooms_inv_def)
  from Cons.IH [OF rs] d have rest: "rooms_inv rest'" by simp
  show ?case
    using r rest
    by (auto simp: a d Let_def rooms_inv_def room_inv_def host_ok_def lock_ok_def has_delete
        dest: first_key_has split: option.splits)
qed

lemma step_inv: "rooms_inv rs \<Longrightarrow> rooms_inv (fst (step e rs))"
  by (cases e)
    (simp_all add: create_room_inv join_room_inv leave_room_inv set_name_inv spin_request_inv
      disconnect_inv commit_inv)

lemma reachable_inv: "reachable rs \<Longrightarrow> rooms_inv rs"
proof (induction rule: reachable.induct)
  case reach_start
  show ?case by (simp add: rooms_inv_def)
next
  case (reach_step rs e)
  then show ?case by (simp add: step_inv)
qed

lemma reachable_run: "reachable rs \<Longrightarrow> reachable (run es rs)"
  by (induction es arbitrary: rs) (simp_all add: reach_step)

section \<open>The worked trace, step by step\<close>

lemma run_append: "run (es @ es') rs = run es' (run es rs)"
  by (induction es arbitrary: rs) simp_all


lemma ex_run2:
  "run [CreateRoom ''a'' (JString (js ''Alex'')) ex_draws ex_zero 1000,
        JoinRoom ''b'' ''AS9KPM'' (JString (js ''alex'')) ex_zero 1001] []
   = [(''AS9KPM'', \<lparr>users = [(''a'', ex_a), (''b'', ex_b)], hostId = ''a'', spins = 0,
        lockUntil = None, pendingHostId = None\<rparr>)]"
  by code_simp

lemma ex_run3:
  "run [CreateRoom ''a'' (JString (js ''Alex'')) ex_draws ex_zero 1000,
        JoinRoom ''b'' ''AS9KPM'' (JString (js ''alex'')) ex_zero 1001,
        SpinRequest ''a'' ''AS9KPM'' 2000 2001 ex_half ex_half] []
   = [(''AS9KPM'', \<lparr>users = [(''a'', ex_a), (''b'', ex_b)], hostId = ''a'', spins = 1,
        lockUntil = Some 6450, pendingHostId = Some ''b''\<rparr>)]"
proof -
  have split: "run [CreateRoom ''a'' (JString (js ''Alex'')) ex_draws ex_zero 1000,
        JoinRoom ''b'' ''AS9KPM'' (JString (js ''alex'')) ex_zero 1001,
        SpinRequest ''a'' ''AS9KPM'' 2000 2001 ex_half ex_half] []
    = run [SpinRequest ''a'' ''AS9KPM'' 2000 2001 ex_half ex_half]
        (run [CreateRoom ''a'' (JString (js ''Alex'')) ex_draws ex_zero 1000,
              JoinRoom ''b'' ''AS9KPM'' (JString (js ''alex'')) ex_zero 1001] [])"
    by (simp only: run_append [symmetric] append.simps)
  show ?thesis
    unfolding split ex_run2 by code_simp
qed

lemma ex_run4:
  "run [CreateRoom ''a'' (JString (js ''Alex'')) ex_draws ex_zero 1000,
        JoinRoom ''b'' ''AS9KPM'' (JString (js ''alex'')) ex_zero 1001,
        SpinRequest ''a'' ''AS9KPM'' 2000 2001 ex_half ex_half,
        LeaveRoom ''b'' ''AS9KPM''] []
   = [(''AS9KPM'', \<lparr>users = [(''a'', ex_a)], hostId = ''a'', spins = 1,
        lockUntil = Some 6450, pendingHostId = Some ''b''\<rparr>)]"
proof -
  have split: "run [CreateRoom ''a'' (JString (js ''Alex'')) ex_draws ex_zero 1000,
        JoinRoom ''b'' ''AS9KPM'' (JString (js ''alex'')) ex_zero 1001,
        SpinRequest ''a'' ''AS9KPM'' 2000 2001 ex_half ex_half,
        LeaveRoom ''b'' ''AS9KPM''] []
    = run [LeaveRoom ''b'' ''AS9KPM'']
        (run [CreateRoom ''a'' (JString (js ''Alex'')) ex_draws ex_zero 1000,
              JoinRoom ''b'' ''AS9KPM'' (JString (js ''alex'')) ex_zero 1001,
              SpinRequest ''a'' ''AS9KPM'' 2000 2001 ex_half ex_half] [])"
    by (simp only: run_append [symmetric] append.simps)
  show ?thesis
    unfolding split ex_run3 by (simp add: leave_room_def Let_def first_key_def)
qed

lemma ex_rejoin:
  "run [CreateRoom ''a'' (JString (js ''Alex'')) ex_draws ex_zero 1000,
        JoinRoom ''b'' ''AS9KPM'' (JString (js ''Bo'')) ex_zero 1001,
        JoinRoom ''c'' ''AS9KPM'' (JString (js ''Cleo'')) ex_zero 1002,
        JoinRoom ''b'' ''AS9KPM'' (JString (js ''Bo'')) ex_zero 1003,
        SpinRequest ''a'' ''AS9KPM'' 2000 2008 ex_half ex_half,
        LeaveRoom ''a'' ''AS9KPM''] []
   = [(''AS9KPM'',
       \<lparr>users = [(''b'', \<lparr>uid = ''b'', name = js ''Bo 2'', joinedAt = 1003\<rparr>), (''c'', ex_c)],
        hostId = ''b'', spins = 1, lockUntil = Some 6450, pendingHostId = Some ''a''\<rparr>)]"
  by code_simp

section \<open>The host is a member\<close>

text \<open>
  Claim C1: in every registry that the server reaches from its start by \<open>create_room\<close>,
  \<open>join_room\<close>, \<open>leave_room\<close>, \<open>set_name\<close>, \<open>spin_request\<close>, \<open>disconnect\<close> and firings of
  the deferred commit, in any order and with any arguments, the \<open>hostId\<close> of every room is a
  key of its \<open>users\<close>.
\<close>

theorem host_is_member:
  "reachable rs \<Longrightarrow> map_of rs rid = Some r \<Longrightarrow> hostId r \<in> fst ` set (users r)"
proof -
  assume "reachable rs" and "map_of rs rid = Some r"
  then have "room_inv r" by (blast intro: reachable_inv rooms_inv_lookup)
  then show ?thesis by (simp add: room_inv_def host_ok_def has_iff)
qed


theorem host_is_member_witness:
  "reachable (run [CreateRoom ''a'' (JString (js ''Alex'')) ex_draws ex_zero 1000,
                   JoinRoom ''b'' ''AS9KPM'' (JString (js ''alex'')) ex_zero 1001,
                   SpinRequest ''a'' ''AS9KPM'' 2000 2001 ex_half ex_half,
                   LeaveRoom ''a'' ''AS9KPM''] [])
   \<and> map_of (run [CreateRoom ''a'' (JString (js ''Alex'')) ex_draws ex_zero 1000,
                   JoinRoom ''b'' ''AS9KPM'' (JString (js ''alex'')) ex_zero 1001,
                   SpinRequest ''a'' ''AS9KPM'' 2000 2001 ex_half ex_half,
                   LeaveRoom ''a'' ''AS9KPM''] []) ''AS9KPM''
       = Some \<lparr>users = [(''b'', ex_b)], hostId = ''b'', spins = 1,
               lockUntil = Some 6450, pendingHostId = Some ''b''\<rparr>
   \<and> ''b'' \<in> fst ` set [(''b'', ex_b)]"
  (is "reachable ?S \<and> map_of ?S ?rid = Some ?R \<and> _")
proof -
  have split: "?S = run [LeaveRoom ''a'' ''AS9KPM'']
        (run [CreateRoom ''a'' (JString (js ''Alex'')) ex_draws ex_zero 1000,
              JoinRoom ''b'' ''AS9KPM'' (JString (js ''alex'')) ex_zero 1001,
              SpinRequest ''a'' ''AS9KPM'' 2000 2001 ex_half ex_half] [])"
    by (simp only: run_append [symmetric] append.simps)
  have r: "reachable ?S" by (rule reachable_run [OF reach_start])
  have m: "map_of ?S ?rid = Some ?R"
    unfolding split ex_run3 by (simp add: leave_room_def Let_def first_key_def)
  from host_is_member [OF r m] r m show ?thesis by simp
qed

section \<open>Spin requests\<close>

lemma map_of_update_same: "map_of (AList.update k v al) k = Some v"
  by (simp add: update_conv')

lemma lock_active_iff: "lock_active r now \<longleftrightarrow> (\<exists>t. lockUntil r = Some t \<and> now < t)"
  by (auto simp: lock_active_def split: option.splits)

lemma finished_iff: "finished r now \<longleftrightarrow> lockUntil r = None \<or> (\<exists>t. lockUntil r = Some t \<and> t \<le> now)"
  by (auto simp: finished_def split: option.splits)

lemma length_turn_order: "length (turn_order r) = min 10 (length (users r))"
  by (simp add: turn_order_def min.commute)

lemma abs_mod_less: "1 \<le> n \<Longrightarrow> nat (\<bar>x\<bar> mod int n) < n"
  by (simp add: nat_less_iff)

text \<open>
  Claim C3: while \<open>lockUntil\<close> is present and not yet elapsed, a \<open>spin_request\<close> of the
  current host is answered with \<open>spin_denied\<close>, "A spin is already in progress.", sent to the
  caller alone; the registry is unchanged and nothing else is sent, so no \<open>spin_start\<close>.
\<close>

theorem spin_rejected_while_locked:
  "map_of rs rid = Some r \<Longrightarrow> hostId r = sid \<Longrightarrow> lockUntil r = Some t \<Longrightarrow> now < t \<Longrightarrow>
   spin_request sid rid now seed rndTurns rndDuration rs
     = (rs, [ToSocket sid (SpinDenied ''A spin is already in progress.'')])"
  by (simp add: spin_request_def lock_active_iff)

theorem spin_rejected_while_locked_witness:
  "map_of [(''AS9KPM'', \<lparr>users = [(''a'', ex_a), (''b'', ex_b)], hostId = ''a'', spins = 1,
             lockUntil = Some 6450, pendingHostId = Some ''b''\<rparr>)] ''AS9KPM''
     = Some \<lparr>users = [(''a'', ex_a), (''b'', ex_b)], hostId = ''a'', spins = 1,
             lockUntil = Some 6450, pendingHostId = Some ''b''\<rparr>
   \<and> (3000 :: nat) < 6450
   \<and> spin_request ''a'' ''AS9KPM'' 3000 3001 (Double 1 (- 2)) (Double 3 (- 2))
        [(''AS9KPM'', \<lparr>users = [(''a'', ex_a), (''b'', ex_b)], hostId = ''a'', spins = 1,
             lockUntil = Some 6450, pendingHostId = Some ''b''\<rparr>)]
     = ([(''AS9KPM'', \<lparr>users = [(''a'', ex_a), (''b'', ex_b)], hostId = ''a'', spins = 1,
             lockUntil = Some 6450, pendingHostId = Some ''b''\<rparr>)],
        [ToSocket ''a'' (SpinDenied ''A spin is already in progress.'')])"
  (is "map_of ?S ?rid = Some ?R \<and> ?now < ?t \<and> _")
proof -
  have m: "map_of ?S ?rid = Some ?R" by simp
  have h: "hostId ?R = ''a''" by simp
  have l: "lockUntil ?R = Some ?t" by simp
  have n: "?now < ?t" by simp
  from spin_rejected_while_locked [OF m h l n] m n show ?thesis by simp
qed

text \<open>
  Claim C4, as amended: when fewer than two users are in the room, a \<open>spin_request\<close> of an
  authorized caller that arrives while no lock is pending is answered with \<open>spin_denied\<close>,
  "Need at least 2 players.", sent to the caller alone, and the registry is unchanged. The
  turn order is the first ten users, so fewer than two qualify exactly when the room has
  fewer than two users.
\<close>

theorem spin_needs_two_players:
  "map_of rs rid = Some r \<Longrightarrow>
   hostId r = sid \<or> (pendingHostId r = Some sid \<and> (\<exists>t. lockUntil r = Some t \<and> t \<le> now)) \<Longrightarrow>
   \<not> (\<exists>t. lockUntil r = Some t \<and> now < t) \<Longrightarrow>
   length (users r) < 2 \<Longrightarrow>
   spin_request sid rid now seed rndTurns rndDuration rs
     = (rs, [ToSocket sid (SpinDenied ''Need at least 2 players.'')])"
  by (auto simp: spin_request_def lock_active_iff finished_iff length_turn_order)

theorem spin_needs_two_players_witness:
  "map_of [(''AS9KPM'', \<lparr>users = [(''a'', ex_a)], hostId = ''a'', spins = 1,
             lockUntil = Some 6450, pendingHostId = Some ''b''\<rparr>)] ''AS9KPM''
     = Some \<lparr>users = [(''a'', ex_a)], hostId = ''a'', spins = 1,
             lockUntil = Some 6450, pendingHostId = Some ''b''\<rparr>
   \<and> \<not> (\<exists>t. Some (6450 :: nat) = Some t \<and> 7000 < t)
   \<and> length [(''a'', ex_a)] < 2
   \<and> spin_request ''a'' ''AS9KPM'' 7000 7001 ex_half ex_half
        [(''AS9KPM'', \<lparr>users = [(''a'', ex_a)], hostId = ''a'', spins = 1,
             lockUntil = Some 6450, pendingHostId = Some ''b''\<rparr>)]
     = ([(''AS9KPM'', \<lparr>users = [(''a'', ex_a)], hostId = ''a'', spins = 1,
             lockUntil = Some 6450, pendingHostId = Some ''b''\<rparr>)],
        [ToSocket ''a'' (SpinDenied ''Need at least 2 players.'')])"
  (is "map_of ?S ?rid = Some ?R \<and> _")
proof -
  have m: "map_of ?S ?rid = Some ?R" by simp
  have a: "hostId ?R = ''a'' \<or>
      (pendingHostId ?R = Some ''a'' \<and> (\<exists>t. lockUntil ?R = Some t \<and> t \<le> 7000))" by simp
  have l: "\<not> (\<exists>t. lockUntil ?R = Some t \<and> 7000 < t)" by simp
  have n: "length (users ?R) < 2" by simp
  from spin_needs_two_players [OF m a l n] show ?thesis by simp
qed

text \<open>
  The claim as it stands, without the condition on the lock, fails: the host and one guest
  are in the room, the host spins, the guest leaves, and the host asks again while the lock
  holds. One user is left, the caller is the host, and the answer is "A spin is already in
  progress.".
\<close>

theorem spin_needs_two_players_counterexample:
  "map_of (run [CreateRoom ''a'' (JString (js ''Alex'')) ex_draws ex_zero 1000,
                JoinRoom ''b'' ''AS9KPM'' (JString (js ''alex'')) ex_zero 1001,
                SpinRequest ''a'' ''AS9KPM'' 2000 2001 ex_half ex_half,
                LeaveRoom ''b'' ''AS9KPM''] []) ''AS9KPM''
     = Some \<lparr>users = [(''a'', ex_a)], hostId = ''a'', spins = 1,
             lockUntil = Some 6450, pendingHostId = Some ''b''\<rparr>
   \<and> length (turn_order \<lparr>users = [(''a'', ex_a)], hostId = ''a'', spins = 1,
             lockUntil = Some 6450, pendingHostId = Some ''b''\<rparr>) < 2
   \<and> snd (spin_request ''a'' ''AS9KPM'' 3000 3001 ex_half ex_half
        (run [CreateRoom ''a'' (JString (js ''Alex'')) ex_draws ex_zero 1000,
              JoinRoom ''b'' ''AS9KPM'' (JString (js ''alex'')) ex_zero 1001,
              SpinRequest ''a'' ''AS9KPM'' 2000 2001 ex_half ex_half,
              LeaveRoom ''b'' ''AS9KPM''] []))
     = [ToSocket ''a'' (SpinDenied ''A spin is already in progress.'')]
   \<and> snd (spin_request ''a'' ''AS9KPM'' 3000 3001 ex_half ex_half
        (run [CreateRoom ''a'' (JString (js ''Alex'')) ex_draws ex_zero 1000,
              JoinRoom ''b'' ''AS9KPM'' (JString (js ''alex'')) ex_zero 1001,
              SpinRequest ''a'' ''AS9KPM'' 2000 2001 ex_half ex_half,
              LeaveRoom ''b'' ''AS9KPM''] []))
     \<noteq> [ToSocket ''a'' (SpinDenied ''Need at least 2 players.'')]"
  unfolding ex_run4
  by (simp add: spin_request_def finished_def lock_active_def turn_order_def)

text \<open>
  Claim C5, as amended: a \<open>spin_request\<close> on an existing room from a caller who is neither
  the host nor the pending host of an elapsed lock is dropped: nothing is sent to anyone and
  the registry is unchanged.
\<close>

theorem spin_unauthorized_ignored:
  assumes "reachable rs" and "map_of rs rid = Some r"
    and "hostId r \<noteq> sid"
    and "\<not> (pendingHostId r = Some sid \<and> (\<exists>t. lockUntil r = Some t \<and> t \<le> now))"
  shows "spin_request sid rid now seed rndTurns rndDuration rs = (rs, [])"
proof -
  from assms(1,2) have "room_inv r" by (blast intro: reachable_inv rooms_inv_lookup)
  then have "pendingHostId r = Some sid \<Longrightarrow> lockUntil r \<noteq> None"
    by (simp add: room_inv_def lock_ok_def)
  with assms(4) have "\<not> (pendingHostId r = Some sid \<and> finished r now)"
    by (auto simp: finished_iff)
  with assms(2,3) show ?thesis by (simp add: spin_request_def)
qed

theorem spin_unauthorized_ignored_witness:
  "reachable (run [CreateRoom ''a'' (JString (js ''Alex'')) ex_draws ex_zero 1000,
                   JoinRoom ''b'' ''AS9KPM'' (JString (js ''alex'')) ex_zero 1001,
                   SpinRequest ''a'' ''AS9KPM'' 2000 2001 ex_half ex_half] [])
   \<and> map_of (run [CreateRoom ''a'' (JString (js ''Alex'')) ex_draws ex_zero 1000,
                   JoinRoom ''b'' ''AS9KPM'' (JString (js ''alex'')) ex_zero 1001,
                   SpinRequest ''a'' ''AS9KPM'' 2000 2001 ex_half ex_half] []) ''AS9KPM''
       = Some \<lparr>users = [(''a'', ex_a), (''b'', ex_b)], hostId = ''a'', spins = 1,
               lockUntil = Some 6450, pendingHostId = Some ''b''\<rparr>
   \<and> ''a'' \<noteq> ''b''
   \<and> \<not> (Some ''b'' = Some ''b'' \<and> (\<exists>t. Some (6450 :: nat) = Some t \<and> t \<le> 3000))
   \<and> spin_request ''b'' ''AS9KPM'' 3000 3001 ex_half ex_half
        (run [CreateRoom ''a'' (JString (js ''Alex'')) ex_draws ex_zero 1000,
              JoinRoom ''b'' ''AS9KPM'' (JString (js ''alex'')) ex_zero 1001,
              SpinRequest ''a'' ''AS9KPM'' 2000 2001 ex_half ex_half] [])
     = (run [CreateRoom ''a'' (JString (js ''Alex'')) ex_draws ex_zero 1000,
             JoinRoom ''b'' ''AS9KPM'' (JString (js ''alex'')) ex_zero 1001,
             SpinRequest ''a'' ''AS9KPM'' 2000 2001 ex_half ex_half] [], [])"
  (is "reachable ?S \<and> map_of ?S ?rid = Some ?R \<and> _")
proof -
  have r: "reachable ?S" by (rule reachable_run [OF reach_start])
  have m: "map_of ?S ?rid = Some ?R" unfolding ex_run3 by simp
  have h: "hostId ?R \<noteq> ''b''" by simp
  have p: "\<not> (pendingHostId ?R = Some ''b'' \<and> (\<exists>t. lockUntil ?R = Some t \<and> t \<le> 3000))"
    by simp
  from spin_unauthorized_ignored [OF r m h p] r m show ?thesis by simp
qed

text \<open>
  The claim as it stands promises a rejection notice to such a caller. The handler returns
  before it sends anything: a guest who is not the host asks for a spin and gets no answer.
\<close>

theorem spin_unauthorized_counterexample:
  "map_of (run [CreateRoom ''a'' (JString (js ''Alex'')) ex_draws ex_zero 1000,
                JoinRoom ''b'' ''AS9KPM'' (JString (js ''alex'')) ex_zero 1001] []) ''AS9KPM''
     = Some \<lparr>users = [(''a'', ex_a), (''b'', ex_b)], hostId = ''a'', spins = 0,
             lockUntil = None, pendingHostId = None\<rparr>
   \<and> spin_request ''b'' ''AS9KPM'' 2000 2001 ex_half ex_half
        (run [CreateRoom ''a'' (JString (js ''Alex'')) ex_draws ex_zero 1000,
              JoinRoom ''b'' ''AS9KPM'' (JString (js ''alex'')) ex_zero 1001] [])
     = (run [CreateRoom ''a'' (JString (js ''Alex'')) ex_draws ex_zero 1000,
             JoinRoom ''b'' ''AS9KPM'' (JString (js ''alex'')) ex_zero 1001] [], [])"
  unfolding ex_run2
  by (simp add: spin_request_def finished_def)

text \<open>
  Claim C7: an accepted spin picks the user at index \<open>idx\<close> of the turn order, the users
  sorted by join time and cut to the first ten. The index is the seed, as a 32-bit integer,
  XORed with the odd constant \<open>0x9e3779b9\<close>, then mixed by \<open>x ^= x << 13\<close>,
  \<open>x ^= x >> 17\<close> and \<open>x ^= x << 5\<close>, and its absolute value taken modulo the length of the
  order. That user becomes \<open>pendingHostId\<close> and is the \<open>nextHostId\<close> of the \<open>spin_start\<close>.
\<close>

theorem spin_winner:
  assumes "map_of rs rid = Some r"
    and "hostId r = sid \<or> (pendingHostId r = Some sid \<and> (\<exists>t. lockUntil r = Some t \<and> t \<le> now))"
    and "\<not> (\<exists>t. lockUntil r = Some t \<and> now < t)"
    and "2 \<le> length (users r)"
  shows "let order = take 10 (sort_key joinedAt (map snd (users r)));
             x0 = word_of_int (int seed) XOR 0x9e3779b9 :: 32 word;
             x1 = x0 XOR push_bit 13 x0;
             x2 = x1 XOR signed_drop_bit 17 x1;
             x3 = x2 XOR push_bit 5 x2;
             idx = nat (\<bar>sint x3\<bar> mod int (length order));
             winner = order ! idx
         in sorted (map joinedAt order) \<and> set order \<subseteq> snd ` set (users r) \<and>
            idx < length order \<and>
            (\<exists>r' msg. spin_request sid rid now seed rndTurns rndDuration rs
                        = (AList.update rid r' rs, [ToRoom rid (SpinStart msg)]) \<and>
               pendingHostId r' = Some (uid winner) \<and> hostId r' = hostId r \<and>
               users r' = users r \<and> spins r' = spins r + 1 \<and>
               nextHostId msg = uid winner \<and> targetIndex msg = idx \<and>
               orderIds msg = map uid order \<and> spinsSent msg = spins r + 1)"
proof -
  let ?order = "turn_order r"
  have len: "2 \<le> length ?order" using assms(4) by (simp add: length_turn_order)
  have srt: "sorted (map joinedAt ?order)"
    unfolding turn_order_def by (simp add: sorted_wrt_take take_map [symmetric] del: take_map)
  have sub: "set ?order \<subseteq> snd ` set (users r)"
    unfolding turn_order_def
    using set_take_subset [of 10 "sort_key joinedAt (map snd (users r))"] by simp
  have auth: "hostId r = sid \<or> (pendingHostId r = Some sid \<and> finished r now)"
    using assms(2) by (auto simp: finished_iff)
  have nolock: "\<not> lock_active r now" using assms(3) by (simp add: lock_active_iff)
  have idx: "nat (\<bar>sint w\<bar> mod int (length ?order)) < length ?order" for w :: "32 word"
    using len by (intro abs_mod_less) simp
  have nlt: "\<not> length ?order < 2" using len by simp
  show ?thesis
    unfolding turn_order_def [symmetric]
    using assms(1) auth nolock nlt srt sub idx
    apply (simp add: spin_request_def Let_def seededPick_def mix_def)
    apply (rule exI, rule conjI, rule refl)
    apply simp
    done
qed

theorem spin_winner_witness:
  "map_of [(''AS9KPM'', \<lparr>users = [(''a'', ex_a), (''b'', ex_b), (''c'', ex_c)], hostId = ''a'',
             spins = 0, lockUntil = None, pendingHostId = None\<rparr>)] ''AS9KPM''
     = Some \<lparr>users = [(''a'', ex_a), (''b'', ex_b), (''c'', ex_c)], hostId = ''a'',
             spins = 0, lockUntil = None, pendingHostId = None\<rparr>
   \<and> (2 :: nat) \<le> length [(''a'', ex_a), (''b'', ex_b), (''c'', ex_c)]
   \<and> (\<exists>r' msg.
        spin_request ''a'' ''AS9KPM'' 2000 2004 ex_half ex_half
          [(''AS9KPM'', \<lparr>users = [(''a'', ex_a), (''b'', ex_b), (''c'', ex_c)], hostId = ''a'',
             spins = 0, lockUntil = None, pendingHostId = None\<rparr>)]
        = (AList.update ''AS9KPM'' r'
            [(''AS9KPM'', \<lparr>users = [(''a'', ex_a), (''b'', ex_b), (''c'', ex_c)],
               hostId = ''a'', spins = 0, lockUntil = None, pendingHostId = None\<rparr>)],
           [ToRoom ''AS9KPM'' (SpinStart msg)])
        \<and> pendingHostId r' = Some ''c'' \<and> nextHostId msg = ''c'' \<and> targetIndex msg = 2
        \<and> orderIds msg = [''a'', ''b'', ''c''] \<and> spins r' = 1)"
  (is "map_of ?S ?rid = Some ?R \<and> _")
proof -
  have m: "map_of ?S ?rid = Some ?R" by simp
  have a: "hostId ?R = ''a'' \<or>
      (pendingHostId ?R = Some ''a'' \<and> (\<exists>t. lockUntil ?R = Some t \<and> t \<le> 2000))" by simp
  have l: "\<not> (\<exists>t. lockUntil ?R = Some t \<and> 2000 < t)" by simp
  have n: "2 \<le> length (users ?R)" by simp
  have p: "nat (\<bar>sint (mix (word_of_int (int 2004) XOR 0x9e3779b9))\<bar> mod 3) = 2"
    by (simp add: mix_def)
  from spin_winner [OF m a l n, of 2004 ex_half ex_half] p show ?thesis
    by (simp add: Let_def mix_def) blast
qed

section \<open>The deferred commit\<close>

text \<open>
  Claim C2, as amended: when the timer of a spin fires and the room is gone, nothing
  happens. Otherwise the pending winner becomes the host if they are still a member; if
  not, the first remaining member in the insertion order of \<open>users\<close> does, and in an empty
  room the host stays as it was. In both cases \<open>pendingHostId\<close> and \<open>lockUntil\<close> are cleared
  and the state is broadcast. The handler tests the first key for truthiness, so the
  statement is about rooms whose handles are not the empty string, as the ids of the
  transport are.
\<close>

theorem deferred_commit:
  "(map_of rs rid = None \<longrightarrow> commit rid rs = (rs, [])) \<and>
   (map_of rs rid = Some r \<and> [] \<notin> fst ` set (users r) \<longrightarrow>
     (\<exists>r'. commit rid rs = (AList.update rid r' rs, [ToRoom rid (room_state rid r')]) \<and>
        map_of (AList.update rid r' rs) rid = Some r' \<and>
        (\<forall>p. pendingHostId r = Some p \<and> p \<in> fst ` set (users r) \<longrightarrow> hostId r' = p) \<and>
        ((\<forall>p. pendingHostId r = Some p \<longrightarrow> p \<notin> fst ` set (users r)) \<and> users r \<noteq> []
           \<longrightarrow> hostId r' = fst (hd (users r))) \<and>
        ((\<forall>p. pendingHostId r = Some p \<longrightarrow> p \<notin> fst ` set (users r)) \<and> users r = []
           \<longrightarrow> hostId r' = hostId r) \<and>
        pendingHostId r' = None \<and> lockUntil r' = None \<and>
        users r' = users r \<and> spins r' = spins r))"
proof (intro conjI impI)
  assume "map_of rs rid = None"
  then show "commit rid rs = (rs, [])" by (simp add: commit_def)
next
  assume a: "map_of rs rid = Some r \<and> [] \<notin> fst ` set (users r)"
  let ?r' = "r\<lparr>hostId := commit_host r, pendingHostId := None, lockUntil := None\<rparr>"
  have fb: "fallback_host r = (if users r = [] then hostId r else fst (hd (users r)))"
    using a by (cases "users r") (auto simp: fallback_host_def first_key_def)
  have c: "commit rid rs = (AList.update rid ?r' rs, [ToRoom rid (room_state rid ?r')])"
    using a by (simp add: commit_def Let_def emitState_def map_of_update_same)
  have h1: "\<forall>p. pendingHostId r = Some p \<and> p \<in> fst ` set (users r) \<longrightarrow> hostId ?r' = p"
    by (auto simp: commit_host_def has_iff)
  have h2: "(\<forall>p. pendingHostId r = Some p \<longrightarrow> p \<notin> fst ` set (users r)) \<longrightarrow>
      hostId ?r' = fallback_host r"
    by (auto simp: commit_host_def has_iff split: option.splits)
  show "\<exists>r'. commit rid rs = (AList.update rid r' rs, [ToRoom rid (room_state rid r')]) \<and>
        map_of (AList.update rid r' rs) rid = Some r' \<and>
        (\<forall>p. pendingHostId r = Some p \<and> p \<in> fst ` set (users r) \<longrightarrow> hostId r' = p) \<and>
        ((\<forall>p. pendingHostId r = Some p \<longrightarrow> p \<notin> fst ` set (users r)) \<and> users r \<noteq> []
           \<longrightarrow> hostId r' = fst (hd (users r))) \<and>
        ((\<forall>p. pendingHostId r = Some p \<longrightarrow> p \<notin> fst ` set (users r)) \<and> users r = []
           \<longrightarrow> hostId r' = hostId r) \<and>
        pendingHostId r' = None \<and> lockUntil r' = None \<and>
        users r' = users r \<and> spins r' = spins r"
    apply (rule exI [of _ ?r'])
    using c h1 h2 fb by (simp add: map_of_update_same)
qed

theorem deferred_commit_witness:
  "map_of [(''AS9KPM'', \<lparr>users = [(''a'', ex_a), (''b'', ex_b)], hostId = ''b'',
             spins = 2, lockUntil = Some 6450, pendingHostId = Some ''c''\<rparr>)] ''AS9KPM''
     = Some \<lparr>users = [(''a'', ex_a), (''b'', ex_b)], hostId = ''b'',
             spins = 2, lockUntil = Some 6450, pendingHostId = Some ''c''\<rparr>
   \<and> [] \<notin> fst ` set [(''a'', ex_a), (''b'', ex_b)]
   \<and> (\<exists>r'. commit ''AS9KPM''
          [(''AS9KPM'', \<lparr>users = [(''a'', ex_a), (''b'', ex_b)], hostId = ''b'',
             spins = 2, lockUntil = Some 6450, pendingHostId = Some ''c''\<rparr>)]
        = (AList.update ''AS9KPM'' r'
            [(''AS9KPM'', \<lparr>users = [(''a'', ex_a), (''b'', ex_b)], hostId = ''b'',
               spins = 2, lockUntil = Some 6450, pendingHostId = Some ''c''\<rparr>)],
           [ToRoom ''AS9KPM'' (room_state ''AS9KPM'' r')])
        \<and> hostId r' = ''a'' \<and> pendingHostId r' = None \<and> lockUntil r' = None)
   \<and> map_of [(''AS9KPM'', \<lparr>users = [(''a'', ex_a), (''b'', ex_b), (''c'', ex_c)],
             hostId = ''a'', spins = 1, lockUntil = Some 6450,
             pendingHostId = Some ''c''\<rparr>)] ''AS9KPM''
     = Some \<lparr>users = [(''a'', ex_a), (''b'', ex_b), (''c'', ex_c)],
             hostId = ''a'', spins = 1, lockUntil = Some 6450, pendingHostId = Some ''c''\<rparr>
   \<and> (\<exists>r'. commit ''AS9KPM''
          [(''AS9KPM'', \<lparr>users = [(''a'', ex_a), (''b'', ex_b), (''c'', ex_c)],
             hostId = ''a'', spins = 1, lockUntil = Some 6450,
             pendingHostId = Some ''c''\<rparr>)]
        = (AList.update ''AS9KPM'' r'
            [(''AS9KPM'', \<lparr>users = [(''a'', ex_a), (''b'', ex_b), (''c'', ex_c)],
               hostId = ''a'', spins = 1, lockUntil = Some 6450,
               pendingHostId = Some ''c''\<rparr>)],
           [ToRoom ''AS9KPM'' (room_state ''AS9KPM'' r')])
        \<and> hostId r' = ''c'' \<and> pendingHostId r' = None \<and> lockUntil r' = None)
   \<and> map_of ([] :: rooms) ''AS9KPM'' = None
   \<and> commit ''AS9KPM'' [] = ([], [])"
  (is "map_of ?S ?rid = Some ?R \<and> ?K \<and> ?E1 \<and> map_of ?T ?rid = Some ?Q \<and> ?E2 \<and> ?N \<and> ?C")
proof -
  have m1: "map_of ?S ?rid = Some ?R" by simp
  have k1: "[] \<notin> fst ` set (users ?R)" by simp
  have m2: "map_of ?T ?rid = Some ?Q" by simp
  have k2: "[] \<notin> fst ` set (users ?Q)" by simp
  have n: "map_of ([] :: rooms) ?rid = None" by simp
  have e1: ?E1 using deferred_commit [of ?S ?rid ?R] m1 k1 by simp blast
  have e2: ?E2 using deferred_commit [of ?T ?rid ?Q] m2 k2 by simp blast
  have c: ?C using deferred_commit [of "[]" ?rid] n by simp
  from m1 k1 e1 m2 e2 n c show ?thesis by simp
qed

text \<open>
  The claim as it stands names the earliest-joined remaining member. The first key of
  \<open>users\<close> is the member whose entry is the oldest, and a second \<open>join_room\<close> of a member
  renews \<open>joinedAt\<close> in place: a, b and c join, b joins again, a spins and wins and leaves,
  and the commit makes b the host, whose join time 1003 is later than the 1002 of c.
\<close>

theorem deferred_commit_counterexample:
  "map_of (run [CreateRoom ''a'' (JString (js ''Alex'')) ex_draws ex_zero 1000,
                JoinRoom ''b'' ''AS9KPM'' (JString (js ''Bo'')) ex_zero 1001,
                JoinRoom ''c'' ''AS9KPM'' (JString (js ''Cleo'')) ex_zero 1002,
                JoinRoom ''b'' ''AS9KPM'' (JString (js ''Bo'')) ex_zero 1003,
                SpinRequest ''a'' ''AS9KPM'' 2000 2008 ex_half ex_half,
                LeaveRoom ''a'' ''AS9KPM''] []) ''AS9KPM''
     = Some \<lparr>users = [(''b'', \<lparr>uid = ''b'', name = js ''Bo 2'', joinedAt = 1003\<rparr>), (''c'', ex_c)],
             hostId = ''b'', spins = 1, lockUntil = Some 6450, pendingHostId = Some ''a''\<rparr>
   \<and> map_of (fst (commit ''AS9KPM''
        (run [CreateRoom ''a'' (JString (js ''Alex'')) ex_draws ex_zero 1000,
              JoinRoom ''b'' ''AS9KPM'' (JString (js ''Bo'')) ex_zero 1001,
              JoinRoom ''c'' ''AS9KPM'' (JString (js ''Cleo'')) ex_zero 1002,
              JoinRoom ''b'' ''AS9KPM'' (JString (js ''Bo'')) ex_zero 1003,
              SpinRequest ''a'' ''AS9KPM'' 2000 2008 ex_half ex_half,
              LeaveRoom ''a'' ''AS9KPM''] []))) ''AS9KPM''
     = Some \<lparr>users = [(''b'', \<lparr>uid = ''b'', name = js ''Bo 2'', joinedAt = 1003\<rparr>), (''c'', ex_c)],
             hostId = ''b'', spins = 1, lockUntil = None, pendingHostId = None\<rparr>
   \<and> sort_key joinedAt [\<lparr>uid = ''b'', name = js ''Bo 2'', joinedAt = 1003\<rparr>, ex_c]
     = [ex_c, \<lparr>uid = ''b'', name = js ''Bo 2'', joinedAt = 1003\<rparr>]
   \<and> joinedAt ex_c < joinedAt \<lparr>uid = ''b'', name = js ''Bo 2'', joinedAt = 1003\<rparr>"
  unfolding ex_rejoin
  by (simp add: commit_def commit_host_def fallback_host_def first_key_def has_def Let_def)

text \<open>
  In a room whose join times do not decrease along the insertion order the first entry also
  has the least \<open>joinedAt\<close>.
\<close>

lemma first_entry_least_joinedAt:
  "sorted (map (\<lambda>(k, u). joinedAt u) us) \<Longrightarrow> (k, u) \<in> set us \<Longrightarrow>
   joinedAt (snd (hd us)) \<le> joinedAt u"
  by (cases us) auto

section \<open>Renaming\<close>









section \<open>Sanitized names\<close>

lemma last_dropWhile_eq: "dropWhile P xs \<noteq> [] \<Longrightarrow> last (dropWhile P xs) = last xs"
  by (induction xs) (auto split: if_splits)

lemma filter_dropWhile_not: "filter (\<lambda>c. \<not> P c) (dropWhile P xs) = filter (\<lambda>c. \<not> P c) xs"
  by (induction xs) auto

lemma trim_decomp:
  "\<exists>pre post. s = pre @ trim s @ post \<and> (\<forall>c \<in> set pre \<union> set post. is_space c)"
proof -
  define d where "d = dropWhile is_space s"
  define post where "post = rev (takeWhile is_space (rev d))"
  have "rev (dropWhile is_space (rev d)) @ post
      = rev (takeWhile is_space (rev d) @ dropWhile is_space (rev d))"
    by (simp only: post_def rev_append)
  also have "\<dots> = d" by (simp only: takeWhile_dropWhile_id rev_rev_ident)
  finally have d: "d = trim s @ post" by (simp add: trim_def d_def)
  have "s = takeWhile is_space s @ d" by (simp add: d_def)
  with d have "s = takeWhile is_space s @ trim s @ post" by simp
  moreover have "\<forall>c \<in> set (takeWhile is_space s) \<union> set post. is_space c"
    by (auto simp: post_def dest: set_takeWhileD)
  ultimately show ?thesis by blast
qed

lemma trim_ends:
  assumes "trim s \<noteq> []"
  shows "\<not> is_space (hd (trim s)) \<and> \<not> is_space (last (trim s))"
proof -
  define d where "d = dropWhile is_space s"
  define e where "e = dropWhile is_space (rev d)"
  have t: "trim s = rev e" by (simp add: trim_def d_def e_def)
  with assms have e: "e \<noteq> []" by simp
  have d: "d \<noteq> []"
  proof
    assume "d = []"
    then have "e = []" by (simp add: e_def)
    with e show False by simp
  qed
  have "\<not> is_space (hd e)" using e unfolding e_def by (rule hd_dropWhile)
  moreover have "last e = last (rev d)" using e unfolding e_def by (rule last_dropWhile_eq)
  moreover have "\<not> is_space (hd d)" using d unfolding d_def by (rule hd_dropWhile)
  ultimately show ?thesis by (simp add: t hd_rev last_rev)
qed

lemma collapse_ws_hd:
  "xs \<noteq> [] \<Longrightarrow> \<not> is_space (hd xs) \<Longrightarrow> collapse_ws xs \<noteq> [] \<and> hd (collapse_ws xs) = hd xs"
  by (cases xs) auto

lemma is_space_space: "is_space (0x20)"
  by (simp add: is_space_def)

lemma collapse_ws_successively:
  "successively (\<lambda>a b. \<not> (is_space a \<and> is_space b)) (collapse_ws s)"
proof (induction s rule: collapse_ws.induct)
  case 1
  show ?case by simp
next
  case (2 c cs)
  show ?case
  proof (cases "is_space c")
    case True
    define r where "r = dropWhile is_space cs"
    have eq: "collapse_ws (c # cs) = 0x20 # collapse_ws r" using True by (simp add: r_def)
    have ih: "successively (\<lambda>a b. \<not> (is_space a \<and> is_space b)) (collapse_ws r)"
      using "2.IH"(1) [OF True] by (simp add: r_def)
    have h: "r \<noteq> [] \<Longrightarrow> \<not> is_space (hd r)" unfolding r_def by (rule hd_dropWhile)
    show ?thesis
    proof (cases "r = []")
      case True
      then show ?thesis unfolding eq by simp
    next
      case False
      with h collapse_ws_hd [of r] ih show ?thesis unfolding eq by (simp add: successively_Cons)
    qed
  next
    case False
    then show ?thesis using "2.IH"(2) by (auto simp: successively_Cons)
  qed
qed

lemma collapse_ws_spaces: "c \<in> set (collapse_ws s) \<Longrightarrow> is_space c \<Longrightarrow> c = 0x20"
  by (induction s rule: collapse_ws.induct) (auto split: if_splits)

lemma collapse_ws_letters:
  "filter (\<lambda>c. \<not> is_space c) (collapse_ws s) = filter (\<lambda>c. \<not> is_space c) s"
  by (induction s rule: collapse_ws.induct) (auto simp: is_space_space filter_dropWhile_not)

lemma collapse_ws_Nil: "collapse_ws s = [] \<longleftrightarrow> s = []"
  by (cases s) auto

lemma collapse_ws_last:
  "s \<noteq> [] \<Longrightarrow> \<not> is_space (last s) \<Longrightarrow> last (collapse_ws s) = last s"
proof (induction s rule: collapse_ws.induct)
  case 1
  then show ?case by simp
next
  case (2 c cs)
  show ?case
  proof (cases "is_space c")
    case True
    define r where "r = dropWhile is_space cs"
    have eq: "collapse_ws (c # cs) = 0x20 # collapse_ws r" using True by (simp add: r_def)
    from True "2.prems" have cs: "cs \<noteq> []" by auto
    with "2.prems" have l: "\<not> is_space (last cs)" by simp
    have "last cs \<in> set cs" using cs by simp
    with l have r: "r \<noteq> []" unfolding r_def by auto
    then have lr: "last r = last cs" unfolding r_def by (rule last_dropWhile_eq)
    have "last (collapse_ws r) = last r"
      using "2.IH"(1) [OF True] r l lr by (simp add: r_def)
    with r lr cs show ?thesis unfolding eq by (simp add: collapse_ws_Nil)
  next
    case False
    show ?thesis
    proof (cases "cs = []")
      case True
      with False show ?thesis by simp
    next
      case ne: False
      with "2.prems" have "\<not> is_space (last cs)" by simp
      with "2.IH"(2) [OF False ne] False ne show ?thesis by (simp add: collapse_ws_Nil)
    qed
  qed
qed

lemma show_nat_three_digits:
  assumes "100 \<le> n" and "n \<le> 999"
  shows "show_nat n = [digit_char (n div 100), digit_char (n div 10 mod 10), digit_char (n mod 10)]"
proof -
  from assms have b: "n div 100 < 10" "\<not> n div 10 < 10" "\<not> n < 10" by arith+
  have 1: "show_nat (n div 100) = [digit_char (n div 100)]"
    using b by (subst show_nat.simps) simp
  have c: "n div 10 div 10 = n div 100" by (simp add: div_mult2_eq [symmetric])
  have 2: "show_nat (n div 10) = show_nat (n div 100) @ [digit_char (n div 10 mod 10)]"
    using b by (subst show_nat.simps) (simp add: c)
  have 3: "show_nat n = show_nat (n div 10) @ [digit_char (n mod 10)]"
    using b by (subst show_nat.simps) simp
  show ?thesis by (simp add: 1 2 3)
qed

lemma collapse_ws_word: "\<forall>c \<in> set u. \<not> is_space c \<Longrightarrow> collapse_ws u = u"
  by (induction u) simp_all

lemma dropWhile_self: "v = [] \<or> \<not> P (hd v) \<Longrightarrow> dropWhile P v = v"
  by (cases v) auto

text \<open>A word, a run of white space, and a rest that does not start with white space.\<close>

lemma collapse_ws_run:
  assumes "\<forall>c \<in> set u. \<not> is_space c" and "w \<noteq> []" and "\<forall>c \<in> set w. is_space c"
    and "v = [] \<or> \<not> is_space (hd v)"
  shows "collapse_ws (u @ w @ v) = u @ 0x20 # collapse_ws v"
  using assms(1)
proof (induction u)
  case Nil
  from assms(2) obtain c w' where w: "w = c # w'" by (cases w) auto
  with assms(3) have c: "is_space c" and w': "\<forall>x \<in> set w'. is_space x" by auto
  from w' have "dropWhile is_space (w' @ v) = dropWhile is_space v" by simp
  also have "\<dots> = v" using assms(4) by (rule dropWhile_self)
  finally show ?case using c by (simp add: w)
next
  case (Cons a u)
  then show ?case by simp
qed

lemma trim_rtrim: "trim s = rtrim (dropWhile is_space s)"
  by (simp add: trim_def rtrim_def)

lemma rtrim_spaces: "\<forall>c \<in> set ys. is_space c \<Longrightarrow> rtrim (xs @ ys) = rtrim xs"
  using dropWhile_append2 [of "rev ys" is_space "rev xs"] by (simp add: rtrim_def)

lemma rtrim_keep: "\<exists>c \<in> set ys. \<not> is_space c \<Longrightarrow> rtrim (xs @ ys) = xs @ rtrim ys"
proof -
  assume "\<exists>c \<in> set ys. \<not> is_space c"
  then obtain c where "c \<in> set (rev ys)" and "\<not> is_space c" by auto
  then have "dropWhile is_space (rev ys @ rev xs) = dropWhile is_space (rev ys) @ rev xs"
    by (rule dropWhile_append1)
  then show ?thesis by (simp add: rtrim_def)
qed

lemma rtrim_self: "xs \<noteq> [] \<Longrightarrow> \<not> is_space (last xs) \<Longrightarrow> rtrim xs = xs"
proof -
  assume "xs \<noteq> []" and "\<not> is_space (last xs)"
  then have "rev xs = [] \<or> \<not> is_space (hd (rev xs))" by (simp add: hd_rev)
  then have "dropWhile is_space (rev xs) = rev xs" by (rule dropWhile_self)
  then show ?thesis by (simp add: rtrim_def)
qed

lemma rtrim_hd:
  assumes "xs \<noteq> []" and "\<not> is_space (hd xs)"
  shows "rtrim xs \<noteq> [] \<and> hd (rtrim xs) = hd xs"
proof -
  have "hd xs \<in> set (rev xs)" using assms(1) by simp
  with assms(2) have ne: "dropWhile is_space (rev xs) \<noteq> []" by auto
  then have "last (dropWhile is_space (rev xs)) = last (rev xs)" by (rule last_dropWhile_eq)
  then have "hd (rtrim xs) = hd xs" by (simp add: rtrim_def hd_rev last_rev)
  with ne show ?thesis by (simp add: rtrim_def)
qed

lemma spec_words_Nil: "dropWhile is_space s = [] \<Longrightarrow> spec_words s = []"
  by (subst spec_words.simps) (simp only: list.case)

lemma spec_words_Cons:
  "dropWhile is_space s = c # cs \<Longrightarrow>
   spec_words s = (c # takeWhile (\<lambda>x. \<not> is_space x) cs)
                   # spec_words (dropWhile (\<lambda>x. \<not> is_space x) cs)"
  by (subst spec_words.simps) (simp only: list.case)

lemma collapse_trim_words: "collapse_ws (trim s) = spec_join (spec_words s)"
proof (induction s rule: spec_words.induct)
  case (1 s)
  show ?case
  proof (cases "dropWhile is_space s")
    case Nil
    have "trim s = []" unfolding trim_rtrim Nil by (simp add: rtrim_def)
    moreover have "spec_words s = []" using Nil by (rule spec_words_Nil)
    ultimately show ?thesis by simp
  next
    case (Cons c cs)
    define w where "w = c # takeWhile (\<lambda>x. \<not> is_space x) cs"
    define rest where "rest = dropWhile (\<lambda>x. \<not> is_space x) cs"
    have c: "\<not> is_space c" using hd_dropWhile [of is_space s] Cons by simp
    have ww: "\<forall>x \<in> set w. \<not> is_space x" using c by (auto simp: w_def dest: set_takeWhileD)
    have wne: "w \<noteq> []" by (simp add: w_def)
    have d: "dropWhile is_space s = w @ rest" by (simp add: Cons w_def rest_def)
    have sw: "spec_words s = w # spec_words rest"
      unfolding w_def rest_def using Cons by (rule spec_words_Cons)
    have ih: "collapse_ws (trim rest) = spec_join (spec_words rest)"
      unfolding rest_def using Cons by (rule "1.IH")
    have t: "trim s = rtrim (w @ rest)" by (simp add: trim_rtrim d)
    show ?thesis
    proof (cases "dropWhile is_space rest")
      case Nil
      then have "\<forall>x \<in> set rest. is_space x" by simp
      then have "rtrim (w @ rest) = rtrim w" by (rule rtrim_spaces)
      also have "\<dots> = w" using wne ww last_in_set [of w] by (intro rtrim_self) auto
      finally have "collapse_ws (trim s) = w" using ww by (simp add: t collapse_ws_word)
      moreover have "spec_words rest = []" using Nil by (rule spec_words_Nil)
      ultimately show ?thesis by (simp add: sw)
    next
      case (Cons b bs)
      define rest' where "rest' = dropWhile is_space rest"
      define sp where "sp = takeWhile is_space rest"
      have r': "rest' = b # bs" by (simp add: rest'_def Cons)
      have b: "\<not> is_space b" using hd_dropWhile [of is_space rest] Cons by simp
      have rs: "rest = sp @ rest'" by (simp add: sp_def rest'_def)
      have restne: "rest \<noteq> []" using Cons by auto
      then have "\<not> \<not> is_space (hd rest)"
        unfolding rest_def by (rule hd_dropWhile)
      then have spne: "sp \<noteq> []" using restne by (cases rest) (auto simp: sp_def)
      have spp: "\<forall>x \<in> set sp. is_space x" by (auto simp: sp_def dest: set_takeWhileD)
      have tr: "trim rest = rtrim rest'" by (simp add: trim_rtrim rest'_def)
      have "\<exists>x \<in> set rest'. \<not> is_space x" using b by (auto simp: r')
      then have "rtrim ((w @ sp) @ rest') = (w @ sp) @ rtrim rest'" by (rule rtrim_keep)
      then have t': "trim s = w @ sp @ rtrim rest'" by (simp add: t rs)
      have h: "rtrim rest' \<noteq> [] \<and> hd (rtrim rest') = hd rest'"
        using b by (intro rtrim_hd) (simp_all add: r')
      then have "rtrim rest' = [] \<or> \<not> is_space (hd (rtrim rest'))" using b by (simp add: r')
      with ww spne spp have "collapse_ws (w @ sp @ rtrim rest') = w @ 0x20 # collapse_ws (rtrim rest')"
        by (rule collapse_ws_run)
      then have l: "collapse_ws (trim s) = w @ 0x20 # spec_join (spec_words rest)"
        using ih by (simp add: t' tr)
      obtain x xs where "spec_words rest = x # xs"
        using spec_words_Cons [OF Cons] by blast
      then show ?thesis by (simp add: l sw)
    qed
  qed
qed

text \<open>
  Claim C9: for every raw name and every draw of \<open>Math.random()\<close>, \<open>sanitizeName\<close> yields
  the words of the raw name joined by single spaces and cut to 20 code units. That is:
  \<open>trim\<close> cuts a white prefix and suffix off and leaves a string that neither starts nor
  ends with white space; after the replacement no two white characters are adjacent, every
  white character is a space, and the other characters are those of the raw name in their
  order. When nothing is left the result is \<open>Player N\<close>, where \<open>N\<close> is the number that the
  doubles of \<open>Math.floor(100 + Math.random() * 900)\<close> give: it has three digits and lies
  between 100 and 999. The result is never empty.
\<close>

theorem sanitizeName_spec:
  assumes "is_random rnd"
  shows "let t = to_string raw;
             s = collapse_ws (trim t);
             capped = take 20 s;
             n = dfloor (dadd_nat 100 (dmul_nat rnd 900))
         in s = spec_join (spec_words t) \<and>
            (\<exists>pre post. t = pre @ trim t @ post \<and> (\<forall>c \<in> set pre \<union> set post. is_space c)) \<and>
            (trim t \<noteq> [] \<longrightarrow> \<not> is_space (hd (trim t)) \<and> \<not> is_space (last (trim t))) \<and>
            successively (\<lambda>a b. \<not> (is_space a \<and> is_space b)) s \<and>
            (\<forall>c \<in> set s. is_space c \<longrightarrow> c = 0x20) \<and>
            filter (\<lambda>c. \<not> is_space c) s = filter (\<lambda>c. \<not> is_space c) t \<and>
            (s \<noteq> [] \<longrightarrow> \<not> is_space (hd s) \<and> \<not> is_space (last s)) \<and>
            length capped \<le> 20 \<and>
            100 \<le> n \<and> n \<le> 999 \<and> length (show_nat n) = 3 \<and>
            sanitizeName raw rnd
              = (if take 20 (spec_join (spec_words t)) = [] then js ''Player '' @ js (show_nat n)
                 else take 20 (spec_join (spec_words t))) \<and>
            sanitizeName raw rnd \<noteq> []"
proof -
  define t where "t = to_string raw"
  define s where "s = collapse_ws (trim t)"
  define n where "n = dfloor (dadd_nat 100 (dmul_nat rnd 900))"
  have n: "100 \<le> n \<and> n \<le> 999" unfolding n_def using assms by (rule placeholder_number_range)
  then have len: "length (show_nat n) = 3" by (simp add: show_nat_three_digits)
  have words: "s = spec_join (spec_words t)" unfolding s_def by (rule collapse_trim_words)
  have ends: "s \<noteq> [] \<longrightarrow> \<not> is_space (hd s) \<and> \<not> is_space (last s)"
  proof
    assume "s \<noteq> []"
    then have ne: "trim t \<noteq> []" by (simp add: s_def collapse_ws_Nil)
    then have e: "\<not> is_space (hd (trim t)) \<and> \<not> is_space (last (trim t))" by (rule trim_ends)
    with ne collapse_ws_hd [of "trim t"] collapse_ws_last [of "trim t"]
    show "\<not> is_space (hd s) \<and> \<not> is_space (last s)" by (simp add: s_def)
  qed
  have letters: "filter (\<lambda>c. \<not> is_space c) s = filter (\<lambda>c. \<not> is_space c) t"
  proof -
    obtain pre post where d: "t = pre @ trim t @ post"
      and sp: "\<forall>c \<in> set pre \<union> set post. is_space c"
      using trim_decomp [of t] by blast
    from sp have "filter (\<lambda>c. \<not> is_space c) pre = []" "filter (\<lambda>c. \<not> is_space c) post = []"
      by (auto simp: filter_empty_conv)
    then have "filter (\<lambda>c. \<not> is_space c) (pre @ trim t @ post) = filter (\<lambda>c. \<not> is_space c) (trim t)"
      by simp
    with d have "filter (\<lambda>c. \<not> is_space c) t = filter (\<lambda>c. \<not> is_space c) (trim t)" by simp
    then show ?thesis by (simp add: s_def collapse_ws_letters)
  qed
  have res: "sanitizeName raw rnd = (if take 20 s = [] then js ''Player '' @ js (show_nat n) else take 20 s)"
    by (simp add: sanitizeName_def Let_def s_def t_def n_def)
  then have nonempty: "sanitizeName raw rnd \<noteq> []" by (simp add: js_def)
  show ?thesis
    unfolding Let_def t_def [symmetric] s_def [symmetric] n_def [symmetric]
    using trim_decomp [of t] trim_ends [of t] collapse_ws_successively [of "trim t"]
      collapse_ws_spaces [of _ "trim t"] letters ends n len res nonempty words
    by (simp add: s_def [symmetric])
qed

theorem sanitizeName_spec_witness:
  "is_random (Double 57545995238623 (- 51))
   \<and> sanitizeName (JString (0x09 # 0x2003 # js ''Mary   Ann'' @ 0x3000 # js '' Smith  ''))
        (Double 57545995238623 (- 51)) = js ''Mary Ann Smith''
   \<and> sanitizeName (JOther (js ''[object Object]'')) (Double 57545995238623 (- 51))
        = js ''[object Object]''
   \<and> sanitizeName (JString (js ''    '')) (Double 57545995238623 (- 51)) = js ''Player 123''
   \<and> sanitizeName JFalsy ex_half = js ''Player 550''
   \<and> sanitizeName (JString (js ''The quick brown fox jumps'')) ex_half
        = js ''The quick brown fox ''"
proof -
  have a: "is_random (Double 57545995238623 (- 51))" and b: "is_random ex_half" by code_simp+
  have e1: "take 20 (spec_join (spec_words (to_string
      (JString (0x09 # 0x2003 # js ''Mary   Ann'' @ 0x3000 # js '' Smith  ''))))) = js ''Mary Ann Smith''"
    by code_simp
  have e2: "take 20 (spec_join (spec_words (to_string (JOther (js ''[object Object]'')))))
      = js ''[object Object]''" by code_simp
  have e3: "take 20 (spec_join (spec_words (to_string (JString (js ''    ''))))) = []" by code_simp
  have e4: "take 20 (spec_join (spec_words (to_string JFalsy))) = []" by code_simp
  have e5: "take 20 (spec_join (spec_words (to_string (JString (js ''The quick brown fox jumps'')))))
      = js ''The quick brown fox ''" by code_simp
  have p1: "js ''Player '' @ js (show_nat (dfloor (dadd_nat 100 (dmul_nat (Double 57545995238623 (- 51)) 900))))
      = js ''Player 123''" by code_simp
  have p2: "js ''Player '' @ js (show_nat (dfloor (dadd_nat 100 (dmul_nat ex_half 900))))
      = js ''Player 550''" by code_simp
  have n1: "js ''Mary Ann Smith'' \<noteq> []" "js ''[object Object]'' \<noteq> []"
    "js ''The quick brown fox '' \<noteq> []" by (simp_all add: js_def)
  from sanitizeName_spec [OF a, of "JString (0x09 # 0x2003 # js ''Mary   Ann'' @ 0x3000 # js '' Smith  '')"]
  have r1: "sanitizeName (JString (0x09 # 0x2003 # js ''Mary   Ann'' @ 0x3000 # js '' Smith  ''))
      (Double 57545995238623 (- 51)) = js ''Mary Ann Smith''"
    unfolding Let_def e1 using n1 by simp
  from sanitizeName_spec [OF a, of "JOther (js ''[object Object]'')"]
  have r2: "sanitizeName (JOther (js ''[object Object]'')) (Double 57545995238623 (- 51))
      = js ''[object Object]''"
    unfolding Let_def e2 using n1 by simp
  from sanitizeName_spec [OF a, of "JString (js ''    '')"]
  have r3: "sanitizeName (JString (js ''    '')) (Double 57545995238623 (- 51)) = js ''Player 123''"
    unfolding Let_def e3 p1 by simp
  from sanitizeName_spec [OF b, of JFalsy]
  have r4: "sanitizeName JFalsy ex_half = js ''Player 550''"
    unfolding Let_def e4 p2 by simp
  from sanitizeName_spec [OF b, of "JString (js ''The quick brown fox jumps'')"]
  have r5: "sanitizeName (JString (js ''The quick brown fox jumps'')) ex_half
      = js ''The quick brown fox ''"
    unfolding Let_def e5 using n1 by simp
  from a r1 r2 r3 r4 r5 show ?thesis by simp
qed

section \<open>Join codes\<close>

text \<open>
  A code that \<open>genCode\<close> returns has six characters of the alphabet and is not the key of a
  room; a round whose code is taken is followed by another round on the next six draws.
\<close>

lemma pick_char_in_alphabet:
  assumes "is_random r"
  shows "\<exists>c \<in> set alphabet. pick_char r = [c]"
proof -
  have len: "length alphabet = 31" by (simp add: alphabet_def)
  from alphabet_index_range [OF assms] show ?thesis by (simp add: pick_char_def Let_def len)
qed

lemma six_picks:
  assumes "\<forall>r \<in> set ds. is_random r"
  shows "length (concat (map pick_char ds)) = length ds \<and>
         set (concat (map pick_char ds)) \<subseteq> set alphabet"
  using assms
proof (induction ds)
  case Nil
  show ?case by simp
next
  case (Cons d ds)
  then obtain c where "c \<in> set alphabet" "pick_char d = [c]"
    using pick_char_in_alphabet [of d] by auto
  with Cons show ?case by simp
qed

lemma genCode_result:
  assumes "\<forall>r \<in> set draws. is_random r" and "genCode rs draws = Some code"
  shows "length code = 6 \<and> set code \<subseteq> set alphabet \<and> map_of rs code = None"
  using assms
proof (induction rs draws rule: genCode.induct)
  case (1 rs draws)
  let ?code = "concat (map pick_char (take 6 draws))"
  from "1.prems"(2) have len: "\<not> length draws < 6"
    by (subst (asm) genCode.simps) (simp split: if_splits)
  show ?case
  proof (cases "has ?code rs")
    case True
    with len "1.prems"(2) have "genCode rs (drop 6 draws) = Some code"
      by (subst (asm) genCode.simps) (simp add: Let_def)
    moreover have "\<forall>r \<in> set (drop 6 draws). is_random r"
      using "1.prems"(1) by (auto dest: in_set_dropD)
    ultimately show ?thesis using "1.IH" [OF len refl True] by simp
  next
    case False
    with len "1.prems"(2) have c: "code = ?code"
      by (subst (asm) genCode.simps) (simp add: Let_def)
    have "\<forall>r \<in> set (take 6 draws). is_random r"
      using "1.prems"(1) by (auto dest: in_set_takeD)
    from six_picks [OF this] len False c show ?thesis by (simp add: has_def)
  qed
qed

lemma genCode_retries:
  "6 \<le> length draws \<Longrightarrow> has (concat (map pick_char (take 6 draws))) rs \<Longrightarrow>
   genCode rs draws = genCode rs (drop 6 draws)"
  by (subst genCode.simps) (simp add: Let_def)

lemma genCode_returns:
  "6 \<le> length draws \<Longrightarrow> \<not> has (concat (map pick_char (take 6 draws))) rs \<Longrightarrow>
   genCode rs draws = Some (concat (map pick_char (take 6 draws)))"
  by (subst genCode.simps) (simp add: Let_def)

text \<open>
  Claim C8 speaks of an alphabet of 32 symbols, and the comment beside the string names four
  characters that are left out: I, O, 1 and 0. The string leaves out L as well and has 31
  symbols, so a code is drawn from 31 symbols: the draw \<open>31/32\<close>, which would pick the last
  of 32 symbols, picks index 30, as the largest draw there is does.
\<close>

theorem alphabet_has_31_symbols:
  "length alphabet = 31 \<and> distinct alphabet \<and> CHR ''L'' \<notin> set alphabet \<and>
   set alphabet \<inter> set ''IO10'' = {} \<and>
   genCode [] ex_draws = Some ''AS9KPM'' \<and>
   genCode [] [Double 9007199254740991 (- 53), Double 9007199254740991 (- 53),
               Double 9007199254740991 (- 53), Double 9007199254740991 (- 53),
               Double 9007199254740991 (- 53), Double 9007199254740991 (- 53)] = Some ''999999'' \<and>
   pick_char (Double 31 (- 5)) = ''9''"
  by code_simp

section \<open>Bounds of the pick\<close>

text \<open>
  Claim C10: for every integer seed and every \<open>n \<ge> 1\<close> the index that \<open>seededPick\<close>
  returns is below \<open>n\<close>; so for a turn order that is not empty the index is a position of
  the order.
\<close>

theorem seededPick_in_range:
  "(1 \<le> n \<longrightarrow> seededPick seed n < n) \<and>
   (order \<noteq> [] \<longrightarrow> seededPick seed (length order) < length order)"
proof -
  have "seededPick seed k < k" if "1 \<le> k" for k
    unfolding seededPick_def using that by (rule abs_mod_less)
  then show ?thesis by (cases order) simp_all
qed

theorem seededPick_in_range_witness:
  "(1 :: nat) \<le> 3 \<and> seededPick 1700000000000 3 < 3 \<and>
   [ex_a, ex_b, ex_c] \<noteq> [] \<and>
   seededPick (- 5) (length [ex_a, ex_b, ex_c]) < length [ex_a, ex_b, ex_c]"
  using seededPick_in_range [of 3 1700000000000 "[ex_a, ex_b, ex_c]"]
    seededPick_in_range [of 3 "- 5" "[ex_a, ex_b, ex_c]"]
  by simp

end
